theory Spec2Isabelle
  imports Main "HOL-Library.Word" "HOL-Library.Signed_Division"
begin

unbundle bit_operations_syntax

section \<open>Scalars, target architectures and the byte-swap primitives\<close>

text \<open>
  The JNI scalar types of \<^verbatim>\<open>org_apache_harmony_luni_platform_OSMemory.cpp\<close>. An address
  arrives as a \<^verbatim>\<open>jint\<close> and \<^verbatim>\<open>cast\<close> reinterprets its 32 bits as a pointer, so an
  address is a 32-bit word as well; \<^verbatim>\<open>size_t\<close> is 32 bits wide on both targets.
\<close>

type_synonym jbyte = "8 word"
type_synonym jshort = "16 word"
type_synonym jint = "32 word"
type_synonym jlong = "64 word"
type_synonym addr = "32 word"
type_synonym size_t = "32 word"

text \<open>The file compiles for exactly two targets (lines 32-40); any other is an \<^verbatim>\<open>#error\<close>.\<close>

datatype arch = ARM | I386

fun LONG_ALIGNMENT_MASK :: "arch \<Rightarrow> jint" where
  "LONG_ALIGNMENT_MASK ARM = 0x3"
| "LONG_ALIGNMENT_MASK I386 = 0x0"

text \<open>
  The macros of the C library's \<^verbatim>\<open>byteswap.h\<close>, written with the shifts and masks of
  their usual definition.
\<close>

definition bswap_16 :: "jshort \<Rightarrow> jshort" where
  "bswap_16 x = (drop_bit 8 x AND 0xff) OR push_bit 8 (x AND 0xff)"

definition bswap_32 :: "jint \<Rightarrow> jint" where
  "bswap_32 x =
     drop_bit 24 (x AND 0xff000000) OR drop_bit 8 (x AND 0x00ff0000) OR
     push_bit 8 (x AND 0x0000ff00) OR push_bit 24 (x AND 0x000000ff)"

definition bswap_64 :: "jlong \<Rightarrow> jlong" where
  "bswap_64 x =
     drop_bit 56 (x AND 0xff00000000000000) OR drop_bit 40 (x AND 0x00ff000000000000) OR
     drop_bit 24 (x AND 0x0000ff0000000000) OR drop_bit 8 (x AND 0x000000ff00000000) OR
     push_bit 8 (x AND 0x00000000ff000000) OR push_bit 24 (x AND 0x0000000000ff0000) OR
     push_bit 40 (x AND 0x000000000000ff00) OR push_bit 56 (x AND 0x00000000000000ff)"

text \<open>
  The object representation of a scalar: its bytes in memory order. Both targets are
  little-endian, so the byte at the lowest address is the least significant one.
\<close>

fun bytes_of :: "nat \<Rightarrow> 'a::len word \<Rightarrow> jbyte list" where
  "bytes_of 0 v = []"
| "bytes_of (Suc n) v = ucast v # bytes_of n (drop_bit 8 v)"

fun word_of_bytes :: "jbyte list \<Rightarrow> 'a::len word" where
  "word_of_bytes [] = 0"
| "word_of_bytes (b # bs) = ucast b OR push_bit 8 (word_of_bytes bs)"

text \<open>
  The two ARM instructions of the inline assembly, on a 32-bit register: \<^verbatim>\<open>rev\<close> reverses
  the four bytes of the register, \<^verbatim>\<open>rev16\<close> reverses the two bytes of each halfword.
\<close>

definition arm_rev :: "32 word \<Rightarrow> 32 word" where
  "arm_rev r = (case bytes_of 4 r of [b0, b1, b2, b3] \<Rightarrow> word_of_bytes [b3, b2, b1, b0] | _ \<Rightarrow> r)"

definition arm_rev16 :: "32 word \<Rightarrow> 32 word" where
  "arm_rev16 r = (case bytes_of 4 r of [b0, b1, b2, b3] \<Rightarrow> word_of_bytes [b1, b0, b3, b2] | _ \<Rightarrow> r)"

text \<open>
  \<^verbatim>\<open>fastSwap16\<close> and \<^verbatim>\<open>fastSwap32\<close> (lines 48-62). On ARM the \<^verbatim>\<open>jshort\<close> operand sits
  sign-extended in a register and its low halfword is written back.
\<close>

fun fastSwap16 :: "arch \<Rightarrow> jshort \<Rightarrow> jshort" where
  "fastSwap16 ARM v = ucast (arm_rev16 (scast v))"
| "fastSwap16 I386 v = bswap_16 v"

fun fastSwap32 :: "arch \<Rightarrow> jint \<Rightarrow> jint" where
  "fastSwap32 ARM v = arm_rev v"
| "fastSwap32 I386 v = bswap_32 v"

section \<open>Native memory\<close>

text \<open>
  Native memory is a store from addresses to bytes. Pointer arithmetic is arithmetic on
  32-bit words. A scalar is read and written through its object representation.
\<close>

type_synonym memory = "addr \<Rightarrow> jbyte"

definition load_bytes :: "memory \<Rightarrow> addr \<Rightarrow> nat \<Rightarrow> jbyte list" where
  "load_bytes m a n = map (\<lambda>i. m (a + of_nat i)) [0..<n]"

fun store_bytes :: "memory \<Rightarrow> addr \<Rightarrow> jbyte list \<Rightarrow> memory" where
  "store_bytes m a [] = m"
| "store_bytes m a (b # bs) = store_bytes (m(a := b)) (a + 1) bs"

definition load_jshort :: "memory \<Rightarrow> addr \<Rightarrow> jshort" where
  "load_jshort m a = word_of_bytes (load_bytes m a 2)"

definition store_jshort :: "memory \<Rightarrow> addr \<Rightarrow> jshort \<Rightarrow> memory" where
  "store_jshort m a v = store_bytes m a (bytes_of 2 v)"

definition load_jint :: "memory \<Rightarrow> addr \<Rightarrow> jint" where
  "load_jint m a = word_of_bytes (load_bytes m a 4)"

definition store_jint :: "memory \<Rightarrow> addr \<Rightarrow> jint \<Rightarrow> memory" where
  "store_jint m a v = store_bytes m a (bytes_of 4 v)"

definition load_jlong :: "memory \<Rightarrow> addr \<Rightarrow> jlong" where
  "load_jlong m a = word_of_bytes (load_bytes m a 8)"

definition store_jlong :: "memory \<Rightarrow> addr \<Rightarrow> jlong \<Rightarrow> memory" where
  "store_jlong m a v = store_bytes m a (bytes_of 8 v)"

text \<open>
  A \<^verbatim>\<open>jlong\<close> accessed through a \<^verbatim>\<open>jlong*\<close> is one 8-byte load or store. Where the target
  restricts the alignment of such an access (the reason for \<^verbatim>\<open>LONG_ALIGNMENT_MASK\<close>), an
  address that violates the restriction raises an alignment fault.
\<close>

datatype fault = AlignmentFault

definition deref_load_jlong :: "arch \<Rightarrow> memory \<Rightarrow> addr \<Rightarrow> fault + jlong" where
  "deref_load_jlong arch m a =
     (if a AND LONG_ALIGNMENT_MASK arch = 0 then Inr (load_jlong m a) else Inl AlignmentFault)"

definition deref_store_jlong :: "arch \<Rightarrow> memory \<Rightarrow> addr \<Rightarrow> jlong \<Rightarrow> fault + memory" where
  "deref_store_jlong arch m a v =
     (if a AND LONG_ALIGNMENT_MASK arch = 0 then Inr (store_jlong m a v) else Inl AlignmentFault)"

section \<open>Scalar peek and poke\<close>

text \<open>\<^verbatim>\<open>OSMemory_peekShort\<close>, \<^verbatim>\<open>OSMemory_pokeShort\<close> (lines 249-262).\<close>

definition OSMemory_peekShort :: "arch \<Rightarrow> memory \<Rightarrow> jint \<Rightarrow> bool \<Rightarrow> jshort" where
  "OSMemory_peekShort arch m srcAddress swap =
     (let result = load_jshort m srcAddress
      in if swap then fastSwap16 arch result else result)"

definition OSMemory_pokeShort :: "arch \<Rightarrow> memory \<Rightarrow> jint \<Rightarrow> jshort \<Rightarrow> bool \<Rightarrow> memory" where
  "OSMemory_pokeShort arch m dstAddress val swap =
     (let val' = (if swap then fastSwap16 arch val else val)
      in store_jshort m dstAddress val')"

text \<open>\<^verbatim>\<open>OSMemory_peekInt\<close>, \<^verbatim>\<open>OSMemory_pokeInt\<close> (lines 264-277).\<close>

definition OSMemory_peekInt :: "arch \<Rightarrow> memory \<Rightarrow> jint \<Rightarrow> bool \<Rightarrow> jint" where
  "OSMemory_peekInt arch m srcAddress swap =
     (let result = load_jint m srcAddress
      in if swap then fastSwap32 arch result else result)"

definition OSMemory_pokeInt :: "arch \<Rightarrow> memory \<Rightarrow> jint \<Rightarrow> jint \<Rightarrow> bool \<Rightarrow> memory" where
  "OSMemory_pokeInt arch m dstAddress val swap =
     (let val' = (if swap then fastSwap32 arch val else val)
      in store_jint m dstAddress val')"

text \<open>
  \<^verbatim>\<open>OSMemory_peekLong\<close> (lines 279-300). On the unaligned path the eight bytes of the local
  \<^verbatim>\<open>result\<close> are assigned one at a time, \<^verbatim>\<open>dst[k] = src[k]\<close>; the local starts out
  uninitialised, which the model writes as eight zero bytes that are all overwritten.
\<close>

definition OSMemory_peekLong :: "arch \<Rightarrow> memory \<Rightarrow> jint \<Rightarrow> bool \<Rightarrow> fault + jlong" where
  "OSMemory_peekLong arch m srcAddress swap =
     (case (if srcAddress AND LONG_ALIGNMENT_MASK arch = 0
            then deref_load_jlong arch m srcAddress
            else (let src = srcAddress;
                      dst = replicate 8 (0 :: jbyte);
                      dst = dst[0 := m (src + 0)];
                      dst = dst[1 := m (src + 1)];
                      dst = dst[2 := m (src + 2)];
                      dst = dst[3 := m (src + 3)];
                      dst = dst[4 := m (src + 4)];
                      dst = dst[5 := m (src + 5)];
                      dst = dst[6 := m (src + 6)];
                      dst = dst[7 := m (src + 7)]
                  in Inr (word_of_bytes dst))) of
        Inl f \<Rightarrow> Inl f
      | Inr result \<Rightarrow> Inr (if swap then bswap_64 result else result))"

text \<open>\<^verbatim>\<open>OSMemory_pokeLong\<close> (lines 302-321).\<close>

definition OSMemory_pokeLong :: "arch \<Rightarrow> memory \<Rightarrow> jint \<Rightarrow> jlong \<Rightarrow> bool \<Rightarrow> fault + memory" where
  "OSMemory_pokeLong arch m dstAddress val swap =
     (let val' = (if swap then bswap_64 val else val)
      in if dstAddress AND LONG_ALIGNMENT_MASK arch = 0
         then deref_store_jlong arch m dstAddress val'
         else (let src = bytes_of 8 val';
                   dst = dstAddress;
                   m = m(dst + 0 := src ! 0);
                   m = m(dst + 1 := src ! 1);
                   m = m(dst + 2 := src ! 2);
                   m = m(dst + 3 := src ! 3);
                   m = m(dst + 4 := src ! 4);
                   m = m(dst + 5 := src ! 5);
                   m = m(dst + 6 := src ! 6);
                   m = m(dst + 7 := src ! 7)
               in Inr m))"

section \<open>The array swap routines\<close>

text \<open>
  \<^verbatim>\<open>swapShorts\<close> (lines 64-80). The first loop runs \<^verbatim>\<open>count / 2\<close> times; each round reads
  two packed shorts as one \<^verbatim>\<open>jint\<close>, reverses its four bytes and exchanges the halves
  (\<^verbatim>\<open>v >> 16\<close> on a \<^verbatim>\<open>jint\<close> is an arithmetic shift). The loop function returns the
  memory together with the two advanced pointers, which the trailing 16-bit swap uses.
\<close>

fun swapShorts_pairs :: "arch \<Rightarrow> memory \<Rightarrow> addr \<Rightarrow> addr \<Rightarrow> nat \<Rightarrow> memory \<times> addr \<times> addr" where
  "swapShorts_pairs arch m dst src 0 = (m, dst, src)"
| "swapShorts_pairs arch m dst src (Suc n) =
     (let v = load_jint m src;
          src = src + 4;
          v = fastSwap32 arch v;
          v2 = push_bit 16 v OR (signed_drop_bit 16 v AND 0xffff);
          m = store_jint m dst v2;
          dst = dst + 4
      in swapShorts_pairs arch m dst src n)"

definition swapShorts :: "arch \<Rightarrow> memory \<Rightarrow> addr \<Rightarrow> addr \<Rightarrow> size_t \<Rightarrow> memory" where
  "swapShorts arch m dstShorts srcShorts count =
     (case swapShorts_pairs arch m dstShorts srcShorts (unat (count div 2)) of
        (m, dst, src) \<Rightarrow>
          if count mod 2 \<noteq> 0
          then (let v = load_jshort m src;
                    v = fastSwap16 arch v
                in store_jshort m dst v)
          else m)"

text \<open>\<^verbatim>\<open>swapInts\<close> (lines 82-88).\<close>

fun swapInts_loop :: "arch \<Rightarrow> memory \<Rightarrow> addr \<Rightarrow> addr \<Rightarrow> nat \<Rightarrow> memory" where
  "swapInts_loop arch m dstInts srcInts 0 = m"
| "swapInts_loop arch m dstInts srcInts (Suc n) =
     (let v = load_jint m srcInts;
          srcInts = srcInts + 4;
          v = fastSwap32 arch v;
          m = store_jint m dstInts v;
          dstInts = dstInts + 4
      in swapInts_loop arch m dstInts srcInts n)"

definition swapInts :: "arch \<Rightarrow> memory \<Rightarrow> addr \<Rightarrow> addr \<Rightarrow> size_t \<Rightarrow> memory" where
  "swapInts arch m dstInts srcInts count = swapInts_loop arch m dstInts srcInts (unat count)"

text \<open>\<^verbatim>\<open>swapLongs\<close> (lines 90-101): two 32-bit swaps per element, stored in exchanged order.\<close>

fun swapLongs_loop :: "arch \<Rightarrow> memory \<Rightarrow> addr \<Rightarrow> addr \<Rightarrow> nat \<Rightarrow> memory" where
  "swapLongs_loop arch m dst src 0 = m"
| "swapLongs_loop arch m dst src (Suc n) =
     (let v1 = load_jint m src;
          src = src + 4;
          v2 = load_jint m src;
          src = src + 4;
          v1 = fastSwap32 arch v1;
          v2 = fastSwap32 arch v2;
          m = store_jint m dst v2;
          dst = dst + 4;
          m = store_jint m dst v1;
          dst = dst + 4
      in swapLongs_loop arch m dst src n)"

definition swapLongs :: "arch \<Rightarrow> memory \<Rightarrow> addr \<Rightarrow> addr \<Rightarrow> size_t \<Rightarrow> memory" where
  "swapLongs arch m dstLongs srcLongs count = swapLongs_loop arch m dstLongs srcLongs (unat count)"

text \<open>
  The reference the specification compares \<^verbatim>\<open>swapShorts\<close> with, in the specification's
  words: every 16-bit element is swapped on its own, one after the other.
\<close>

fun swapShorts_each :: "arch \<Rightarrow> memory \<Rightarrow> addr \<Rightarrow> addr \<Rightarrow> nat \<Rightarrow> memory" where
  "swapShorts_each arch m dst src 0 = m"
| "swapShorts_each arch m dst src (Suc n) =
     swapShorts_each arch (store_jshort m dst (fastSwap16 arch (load_jshort m src))) (dst + 2) (src + 2) n"

text \<open>
  Two byte ranges of \<open>n\<close> bytes each lie apart when neither start is within \<open>n\<close> bytes
  after the other (distances are taken in 32-bit pointer arithmetic).
\<close>

definition apart :: "addr \<Rightarrow> addr \<Rightarrow> nat \<Rightarrow> bool" where
  "apart dst src n \<longleftrightarrow> n \<le> unat (src - dst) \<and> n \<le> unat (dst - src)"

text \<open>The elements of an array of \<open>n\<close> shorts at an address.\<close>

definition load_shorts :: "memory \<Rightarrow> addr \<Rightarrow> nat \<Rightarrow> jshort list" where
  "load_shorts m a n = map (\<lambda>i. load_jshort m (a + of_nat (2 * i))) [0..<n]"

text \<open>
  A loop that transforms \<open>n\<close> consecutive cells of \<open>w\<close> bytes each: every round loads one
  cell from the source, applies \<open>f\<close> to its bytes and stores the result at the destination.
  Each of the three routines is an instance (shown below); the proofs go through it.
\<close>

fun cells :: "nat \<Rightarrow> (jbyte list \<Rightarrow> jbyte list) \<Rightarrow> memory \<Rightarrow> addr \<Rightarrow> addr \<Rightarrow> nat \<Rightarrow> memory" where
  "cells w f m dst src 0 = m"
| "cells w f m dst src (Suc n) =
     cells w f (store_bytes m dst (f (load_bytes m src w))) (dst + of_nat w) (src + of_nat w) n"

definition swap_pair :: "jbyte list \<Rightarrow> jbyte list" where
  "swap_pair bs = (case bs of [a0, a1, b0, b1] \<Rightarrow> [a1, a0, b1, b0] | _ \<Rightarrow> bs)"

section \<open>The runtime, the C library and the kernel\<close>

text \<open>
  What the native code shares with its surroundings: native memory, the C library's table
  of live heap blocks (start address and byte count), the Java exception pending on the
  calling thread, and the sequence of calls and log lines that leave this file.
\<close>

datatype jthrowable = OutOfMemoryError | IOException jint

datatype event =
    TrackExternalAllocation jlong
  | TrackExternalFree jlong
  | LibcFree addr
  | ALOGW_allocation_rejected jint
  | ALOGE_bad_mapMode jint
  | SysMmap addr size_t jint jint jint "32 word"
  | GetByteArrayElements addr
  | ReleaseByteArrayElements addr jint
  | GetPrimitiveArrayCritical addr
  | ReleasePrimitiveArrayCritical addr jint

record world =
  mem :: memory
  heap :: "addr \<rightharpoonup> size_t"
  pending :: "jthrowable option"
  trace :: "event list"

definition emit :: "event \<Rightarrow> world \<Rightarrow> world" where
  "emit e w = w\<lparr>trace := trace w @ [e]\<rparr>"

text \<open>\<^verbatim>\<open>jniThrowException\<close> and \<^verbatim>\<open>jniThrowIOException\<close> leave an exception pending.\<close>

definition jniThrowException :: "world \<Rightarrow> jthrowable \<Rightarrow> world" where
  "jniThrowException w exn = w\<lparr>pending := Some exn\<rparr>"

definition jniThrowIOException :: "world \<Rightarrow> jint \<Rightarrow> world" where
  "jniThrowIOException w errno = jniThrowException w (IOException errno)"

text \<open>
  The C library's \<^verbatim>\<open>calloc(n, 1)\<close> and \<^verbatim>\<open>free\<close>. Which block the allocator hands out is
  its own business: \<open>pick\<close> answers with the start of the block, or with 0 (\<^verbatim>\<open>NULL\<close>)
  when it has none. A block of \<open>n\<close> bytes at \<open>b\<close> holds the addresses \<open>x\<close> with
  \<open>x - b < n\<close>; \<^verbatim>\<open>calloc\<close> zeroes them.
\<close>

definition in_block :: "addr \<Rightarrow> addr \<Rightarrow> size_t \<Rightarrow> bool" where
  "in_block x b n \<longleftrightarrow> x - b < n"

definition libc_calloc :: "(world \<Rightarrow> size_t \<Rightarrow> addr) \<Rightarrow> world \<Rightarrow> size_t \<Rightarrow> world \<times> addr" where
  "libc_calloc pick w n =
     (let block = pick w n
      in if block = 0 then (w, 0)
         else (w\<lparr>mem := (\<lambda>x. if in_block x block n then 0 else mem w x),
                  heap := (heap w)(block \<mapsto> n)\<rparr>, block))"

definition libc_free :: "world \<Rightarrow> addr \<Rightarrow> world" where
  "libc_free w p = emit (LibcFree p) (w\<lparr>heap := (heap w)(p := None)\<rparr>)"

section \<open>The tracked allocator\<close>

text \<open>
  \<^verbatim>\<open>OSMemory_malloc\<close> (lines 103-128). \<open>trackExternalAllocation\<close> is the answer of the
  runtime's accounting method. \<^verbatim>\<open>size + sizeof(jlong)\<close> is computed in \<^verbatim>\<open>size_t\<close>, so it
  wraps modulo \<open>2 ^ 32\<close>. The header is stored through a \<^verbatim>\<open>jlong*\<close> into memory that
  \<^verbatim>\<open>calloc\<close> has aligned for any type. The result is the address and the new world; the
  address 0 goes with a pending exception. (\<open>size'\<close> is the parameter \<^verbatim>\<open>size\<close>.)
\<close>

definition OSMemory_malloc ::
  "(world \<Rightarrow> jlong \<Rightarrow> bool) \<Rightarrow> (world \<Rightarrow> size_t \<Rightarrow> addr) \<Rightarrow> world \<Rightarrow> jint \<Rightarrow> world \<times> jint" where
  "OSMemory_malloc trackExternalAllocation pick w size' =
     (let allowed = trackExternalAllocation w (scast size');
          w = emit (TrackExternalAllocation (scast size')) w
      in if \<not> allowed then
           (let w = emit (ALOGW_allocation_rejected size') w;
                w = jniThrowException w OutOfMemoryError
            in (w, 0))
         else
           (case libc_calloc pick w (size' + 8) of
              (w, block) \<Rightarrow>
                if block = 0 then
                  (let w = jniThrowException w OutOfMemoryError
                   in (w, 0))
                else
                  (let result = block;
                       w = w\<lparr>mem := store_jlong (mem w) result (scast size')\<rparr>;
                       result = result + 8
                   in (w, result))))"

text \<open>
  \<^verbatim>\<open>OSMemory_free\<close> (lines 130-138). The header is read through a \<^verbatim>\<open>jlong*\<close> eight bytes
  below the address; for an address that \<^verbatim>\<open>OSMemory_malloc\<close> returned that is where
  \<^verbatim>\<open>calloc\<close>'s aligned block starts. The function checks nothing: given any other address
  it reports whatever those eight bytes hold.
\<close>

definition OSMemory_free :: "world \<Rightarrow> jint \<Rightarrow> world" where
  "OSMemory_free w address =
     (let p = address;
          p = p - 8;
          size' = load_jlong (mem w) p;
          w = emit (TrackExternalFree size') w
      in libc_free w p)"

text \<open>\<^verbatim>\<open>OSMemory_pokeByte\<close> (lines 197-199), on the world.\<close>

definition OSMemory_pokeByte :: "world \<Rightarrow> jint \<Rightarrow> jbyte \<Rightarrow> world" where
  "OSMemory_pokeByte w dstAddress val = w\<lparr>mem := (mem w)(dstAddress := val)\<rparr>"

text \<open>
  How a well-behaved program moves the world on. It allocates; it releases an address
  whose block is live, though none of the addresses in \<open>keep\<close>; it writes into the
  payload of a live block (the layer checks no bounds: staying inside is the caller's
  duty).
\<close>

inductive evolves ::
  "(world \<Rightarrow> jlong \<Rightarrow> bool) \<Rightarrow> (world \<Rightarrow> size_t \<Rightarrow> addr) \<Rightarrow> jint set \<Rightarrow> world \<Rightarrow> world \<Rightarrow> bool"
  for track :: "world \<Rightarrow> jlong \<Rightarrow> bool" and pick :: "world \<Rightarrow> size_t \<Rightarrow> addr"
    and keep :: "jint set" where
  stay: "evolves track pick keep w w"
| allocate: "evolves track pick keep w w' \<Longrightarrow>
     evolves track pick keep w (fst (OSMemory_malloc track pick w' N))"
| release: "evolves track pick keep w w' \<Longrightarrow> heap w' (a - 8) = Some n \<Longrightarrow> a \<notin> keep \<Longrightarrow>
     evolves track pick keep w (OSMemory_free w' a)"
| poke: "evolves track pick keep w w' \<Longrightarrow> heap w' b = Some n \<Longrightarrow> 8 \<le> x - b \<Longrightarrow>
     in_block x b n \<Longrightarrow> evolves track pick keep w (OSMemory_pokeByte w' x v)"

text \<open>
  What the allocator relies on from its two collaborators. The accounting authority admits
  no negative size. The C library returns a block that shares no byte with a live one.
\<close>

definition admits_no_negative :: "(world \<Rightarrow> jlong \<Rightarrow> bool) \<Rightarrow> bool" where
  "admits_no_negative track \<longleftrightarrow> (\<forall>w n. track w n \<longrightarrow> 0 \<le> sint n)"

definition fresh_blocks :: "(world \<Rightarrow> size_t \<Rightarrow> addr) \<Rightarrow> bool" where
  "fresh_blocks pick \<longleftrightarrow>
     (\<forall>w n b' n' x. pick w n \<noteq> 0 \<longrightarrow> heap w b' = Some n' \<longrightarrow> in_block x b' n' \<longrightarrow>
        \<not> in_block x (pick w n) n)"

text \<open>The header invariant: every live block starts with its payload size.\<close>

definition header_inv :: "world \<Rightarrow> bool" where
  "header_inv w \<longleftrightarrow>
     (\<forall>b n. heap w b = Some n \<longrightarrow> 8 \<le> n \<and> 0 \<le> sint (n - 8) \<and> load_jlong (mem w) b = scast (n - 8))"

definition blocks_disjoint :: "world \<Rightarrow> bool" where
  "blocks_disjoint w \<longleftrightarrow>
     (\<forall>b n b' n' x. heap w b = Some n \<longrightarrow> heap w b' = Some n' \<longrightarrow> in_block x b n \<longrightarrow>
        in_block x b' n' \<longrightarrow> b = b')"

section \<open>Mapped regions\<close>

text \<open>The constants of \<^verbatim>\<open>sys/mman.h\<close> and \<^verbatim>\<open>errno.h\<close> on Linux.\<close>

definition PROT_READ :: jint where "PROT_READ = 0x1"
definition PROT_WRITE :: jint where "PROT_WRITE = 0x2"
definition MAP_SHARED :: jint where "MAP_SHARED = 0x01"
definition MAP_PRIVATE :: jint where "MAP_PRIVATE = 0x02"
definition MAP_FAILED :: addr where "MAP_FAILED = - 1"
definition EINVAL :: jint where "EINVAL = 22"

text \<open>
  \<^verbatim>\<open>OSMemory_mmapImpl\<close> (lines 323-349). \<open>sys_mmap\<close> is the kernel: it answers a call with
  the mapped address, or \<^verbatim>\<open>MAP_FAILED\<close>, and the value of \<^verbatim>\<open>errno\<close> after the call.
  \<^verbatim>\<open>size\<close> and \<^verbatim>\<open>offset\<close> are passed as the 32-bit \<^verbatim>\<open>size_t\<close> and \<^verbatim>\<open>off_t\<close>.
\<close>

definition mmap_flags :: "jint \<Rightarrow> (jint \<times> jint) option" where
  "mmap_flags mapMode =
     (if mapMode = 0 then Some (PROT_READ OR PROT_WRITE, MAP_PRIVATE)
      else if mapMode = 1 then Some (PROT_READ, MAP_SHARED)
      else if mapMode = 2 then Some (PROT_READ OR PROT_WRITE, MAP_SHARED)
      else None)"

definition OSMemory_mmapImpl ::
  "(addr \<Rightarrow> size_t \<Rightarrow> jint \<Rightarrow> jint \<Rightarrow> jint \<Rightarrow> 32 word \<Rightarrow> addr \<times> jint) \<Rightarrow>
     world \<Rightarrow> jint \<Rightarrow> jlong \<Rightarrow> jlong \<Rightarrow> jint \<Rightarrow> world \<times> jint" where
  "OSMemory_mmapImpl sys_mmap w fd offset size' mapMode =
     (case mmap_flags mapMode of
        None \<Rightarrow>
          (let w = jniThrowIOException w EINVAL;
               w = emit (ALOGE_bad_mapMode mapMode) w
           in (w, - 1))
      | Some (prot, flags) \<Rightarrow>
          (case sys_mmap 0 (ucast size') prot flags fd (ucast offset) of
             (mapAddress, errno) \<Rightarrow>
               (let w = emit (SysMmap 0 (ucast size') prot flags fd (ucast offset)) w;
                    w = (if mapAddress = MAP_FAILED then jniThrowIOException w errno else w)
                in (w, mapAddress))))"

text \<open>
  \<^verbatim>\<open>OSMemory_isLoaded\<close> (lines 361-385). \<^verbatim>\<open>%\<close> and \<^verbatim>\<open>/\<close> are C's: they truncate towards
  zero, \<^verbatim>\<open>%\<close> on the two \<^verbatim>\<open>int\<close>s, \<^verbatim>\<open>/\<close> on \<^verbatim>\<open>jlong\<close>s; the quotient is narrowed to
  \<^verbatim>\<open>int\<close>. \<open>sys_mincore\<close> is the kernel: it answers with the return code and with what
  the vector holds after the call. \<^verbatim>\<open>new unsigned char[page_count]\<close> cannot succeed for a
  negative count; for any other count it is taken to succeed. (\<open>size'\<close> is the parameter
  \<^verbatim>\<open>size\<close>; \<open>isLoaded_query\<close> is the part of the function that prepares the call.)
\<close>

datatype crash = BadArrayLength

definition c_rem_int :: "jint \<Rightarrow> jint \<Rightarrow> jint" where
  "c_rem_int a b = word_of_int (sint a smod sint b)"


definition c_div_long :: "jlong \<Rightarrow> jlong \<Rightarrow> jlong" where
  "c_div_long a b = word_of_int (sint a sdiv sint b)"

definition isLoaded_query :: "jint \<Rightarrow> jint \<Rightarrow> jlong \<Rightarrow> jint \<times> jlong \<times> jint" where
  "isLoaded_query page_size address size' =
     (let align_offset = c_rem_int address page_size;
          address = address - align_offset;
          size' = size' + scast align_offset;
          page_count = ucast (c_div_long (size' + scast page_size - 1) (scast page_size))
      in (address, size', page_count))"

definition OSMemory_isLoaded ::
  "jint \<Rightarrow> (addr \<Rightarrow> size_t \<Rightarrow> jint \<times> (nat \<Rightarrow> 8 word)) \<Rightarrow> jint \<Rightarrow> jlong \<Rightarrow> crash + bool" where
  "OSMemory_isLoaded page_size sys_mincore address size' =
     (if size' = 0 then Inr True
      else
        (case isLoaded_query page_size address size' of
           (address, size', page_count) \<Rightarrow>
             if sint page_count < 0 then Inl BadArrayLength
             else
               (case sys_mincore address (ucast size') of
                  (rc, vec) \<Rightarrow>
                    if rc = - 1 then Inr False
                    else Inr (list_all (\<lambda>i. vec i = 1) [0..<nat (sint page_count)]))))"

text \<open>
  A kernel for \<^verbatim>\<open>mincore\<close> that is given the set of resident pages: it fails on a start
  that is not page-aligned, and otherwise reports each page from the start on.
\<close>

definition mincore_of :: "jint \<Rightarrow> (addr \<Rightarrow> bool) \<Rightarrow> addr \<Rightarrow> size_t \<Rightarrow> jint \<times> (nat \<Rightarrow> 8 word)" where
  "mincore_of page_size resident start len =
     (if start mod page_size \<noteq> 0 then (- 1, \<lambda>i. 0)
      else (0, \<lambda>i. if resident (start + of_nat i * page_size) then 1 else 0))"

section \<open>The raw array copy\<close>




text \<open>A world to start from: zeroed memory, an empty heap, nothing pending, nothing logged.\<close>

definition world0 :: world where
  "world0 = \<lparr>mem = (\<lambda>_. 0), heap = Map.empty, pending = None, trace = []\<rparr>"

text \<open>The allocator's invariant: the header invariant, and live blocks share no byte.\<close>

definition alloc_inv :: "world \<Rightarrow> bool" where
  "alloc_inv w \<longleftrightarrow> header_inv w \<and> blocks_disjoint w"

text \<open>
  Two collaborators to run the allocator with: an authority that admits exactly the sizes
  that are not negative, and a C library that has a single block to give, at
  \<^verbatim>\<open>0x1000\<close>, and gives it while its heap is empty.
\<close>

definition admit_nonneg :: "world \<Rightarrow> jlong \<Rightarrow> bool" where
  "admit_nonneg w n \<longleftrightarrow> 0 \<le> sint n"

definition pick_once :: "world \<Rightarrow> size_t \<Rightarrow> addr" where
  "pick_once w n = (if heap w = Map.empty then 0x1000 else 0)"

section \<open>Facts about object representations\<close>

lemma bytes_of_2:
  "bytes_of 2 v = [ucast v, ucast (drop_bit 8 v)]"
  by (simp add: eval_nat_numeral)

lemma bytes_of_4:
  "bytes_of 4 v = [ucast v, ucast (drop_bit 8 v), ucast (drop_bit 16 v), ucast (drop_bit 24 v)]"
  by (simp add: eval_nat_numeral)

lemma bytes_of_8:
  "bytes_of 8 v = [ucast v, ucast (drop_bit 8 v), ucast (drop_bit 16 v), ucast (drop_bit 24 v),
     ucast (drop_bit 32 v), ucast (drop_bit 40 v), ucast (drop_bit 48 v), ucast (drop_bit 56 v)]"
  by (simp add: eval_nat_numeral)

lemma length_bytes_of [simp]: "length (bytes_of n v) = n"
  by (induction n arbitrary: v) simp_all

lemma word_of_bytes_of: "word_of_bytes (bytes_of n v) = take_bit (8 * n) v"
proof (induction n arbitrary: v)
  case 0
  show ?case by simp
next
  case (Suc n)
  have "ucast (ucast v :: jbyte) OR push_bit 8 (take_bit (8 * n) (drop_bit 8 v)) = take_bit (8 * Suc n) v"
    by (rule bit_word_eqI) (auto simp: bit_simps)
  then show ?case by (simp add: Suc)
qed

lemma word_of_bytes_of_2 [simp]: "word_of_bytes (bytes_of 2 v) = (v :: jshort)"
  by (simp add: word_of_bytes_of take_bit_word_eq_self)

lemma word_of_bytes_of_4 [simp]: "word_of_bytes (bytes_of 4 v) = (v :: jint)"
  by (simp add: word_of_bytes_of take_bit_word_eq_self)

lemma word_of_bytes_of_8 [simp]: "word_of_bytes (bytes_of 8 v) = (v :: jlong)"
  by (simp add: word_of_bytes_of take_bit_word_eq_self)

lemma bytes_of_word_of_bytes_2 [simp]:
  "bytes_of 2 (word_of_bytes [a, b] :: jshort) = [a, b]"
  unfolding bytes_of_2 by (simp; intro conjI; rule bit_word_eqI) (auto simp: bit_simps dest: bit_imp_le_length)

lemma bytes_of_word_of_bytes_4 [simp]:
  "bytes_of 4 (word_of_bytes [a, b, c, d] :: jint) = [a, b, c, d]"
  unfolding bytes_of_4 by (simp; intro conjI; rule bit_word_eqI) (auto simp: bit_simps dest: bit_imp_le_length)

lemma bytes_of_word_of_bytes_8 [simp]:
  "bytes_of 8 (word_of_bytes [a, b, c, d, e, f, g, h] :: jlong) = [a, b, c, d, e, f, g, h]"
  unfolding bytes_of_8 by (simp; intro conjI; rule bit_word_eqI) (auto simp: bit_simps dest: bit_imp_le_length)

lemma masks16: "(0xff :: jshort) = mask 8"
  by (simp add: mask_eq_exp_minus_1)

lemma masks32:
  "(0xff :: jint) = mask 8" "(0xff00 :: jint) = push_bit 8 (mask 8)"
  "(0xff0000 :: jint) = push_bit 16 (mask 8)" "(0xff000000 :: jint) = push_bit 24 (mask 8)"
  by (simp_all add: mask_eq_exp_minus_1)

lemma masks64:
  "(0xff :: jlong) = mask 8" "(0xff00 :: jlong) = push_bit 8 (mask 8)"
  "(0xff0000 :: jlong) = push_bit 16 (mask 8)" "(0xff000000 :: jlong) = push_bit 24 (mask 8)"
  "(0xff00000000 :: jlong) = push_bit 32 (mask 8)" "(0xff0000000000 :: jlong) = push_bit 40 (mask 8)"
  "(0xff000000000000 :: jlong) = push_bit 48 (mask 8)"
  "(0xff00000000000000 :: jlong) = push_bit 56 (mask 8)"
  by (simp_all add: mask_eq_exp_minus_1)

text \<open>Each swap primitive reverses the object representation.\<close>

lemma bswap_16_bytes: "bytes_of 2 (bswap_16 v) = rev (bytes_of 2 v)"
  unfolding bswap_16_def bytes_of_2 masks16
  by (simp; intro conjI; rule bit_word_eqI) (auto simp: bit_simps)

lemma bswap_32_bytes: "bytes_of 4 (bswap_32 v) = rev (bytes_of 4 v)"
  unfolding bswap_32_def bytes_of_4 masks32
  by (simp; intro conjI; rule bit_word_eqI) (auto simp: bit_simps)

lemma bswap_64_bytes: "bytes_of 8 (bswap_64 v) = rev (bytes_of 8 v)"
  unfolding bswap_64_def bytes_of_8 masks64
  by (simp; intro conjI; rule bit_word_eqI) (auto simp: bit_simps)

lemma arm_rev_bytes: "bytes_of 4 (arm_rev v) = rev (bytes_of 4 v)"
proof -
  obtain b0 b1 b2 b3 where "bytes_of 4 v = [b0, b1, b2, b3]"
    by (simp add: bytes_of_4)
  then show ?thesis
    by (simp add: arm_rev_def del: word_of_bytes.simps)
qed

lemma fastSwap32_bytes: "bytes_of 4 (fastSwap32 arch v) = rev (bytes_of 4 v)"
  by (cases arch) (simp_all add: arm_rev_bytes bswap_32_bytes)

lemma arm_rev16_low: "ucast (arm_rev16 (scast v)) = bswap_16 v"
  unfolding arm_rev16_def bswap_16_def bytes_of_4 masks16
  by (simp; rule bit_word_eqI) (auto simp: bit_simps)

lemma fastSwap16_eq: "fastSwap16 arch v = bswap_16 v"
  by (cases arch) (simp_all add: arm_rev16_low)

lemma fastSwap16_bytes: "bytes_of 2 (fastSwap16 arch v) = rev (bytes_of 2 v)"
  by (simp add: fastSwap16_eq bswap_16_bytes)

lemma bytes_of_2_inj: "bytes_of 2 (v :: jshort) = bytes_of 2 w \<Longrightarrow> v = w"
  using word_of_bytes_of_2 by metis

lemma bytes_of_4_inj: "bytes_of 4 (v :: jint) = bytes_of 4 w \<Longrightarrow> v = w"
  using word_of_bytes_of_4 by metis

lemma bytes_of_8_inj: "bytes_of 8 (v :: jlong) = bytes_of 8 w \<Longrightarrow> v = w"
  using word_of_bytes_of_8 by metis

lemma fastSwap16_involutive: "fastSwap16 arch (fastSwap16 arch v) = v"
  by (rule bytes_of_2_inj) (simp add: fastSwap16_bytes)

lemma fastSwap32_involutive: "fastSwap32 arch (fastSwap32 arch v) = v"
  by (rule bytes_of_4_inj) (simp add: fastSwap32_bytes)

lemma bswap_64_involutive: "bswap_64 (bswap_64 v) = v"
  by (rule bytes_of_8_inj) (simp add: bswap_64_bytes)

lemma fastSwap32_eq: "fastSwap32 arch v = bswap_32 v"
  by (rule bytes_of_4_inj) (simp add: fastSwap32_bytes bswap_32_bytes)

section \<open>Facts about the store\<close>

lemma length_load_bytes [simp]: "length (load_bytes m a n) = n"
  by (simp add: load_bytes_def)

lemma nth_load_bytes [simp]: "i < n \<Longrightarrow> load_bytes m a n ! i = m (a + of_nat i)"
  by (simp add: load_bytes_def)

lemma addr_offset_eq_iff:
  fixes a :: addr
  assumes "i < 2 ^ 32" "j < 2 ^ 32"
  shows "a + of_nat i = a + of_nat j \<longleftrightarrow> i = j"
proof -
  have "(of_nat i :: addr) = of_nat j \<longleftrightarrow> i = j"
    using assms by (simp add: word_of_nat_eq_iff take_bit_nat_eq_self)
  then show ?thesis by simp
qed

lemma store_bytes_frame:
  "(\<And>i. i < length bs \<Longrightarrow> x \<noteq> a + of_nat i) \<Longrightarrow> store_bytes m a bs x = m x"
proof (induction bs arbitrary: m a)
  case Nil
  show ?case by simp
next
  case (Cons b bs)
  have "x \<noteq> a" using Cons.prems [of 0] by simp
  moreover have "store_bytes (m(a := b)) (a + 1) bs x = (m(a := b)) x"
  proof (rule Cons.IH)
    fix i assume "i < length bs"
    then show "x \<noteq> a + 1 + of_nat i"
      using Cons.prems [of "Suc i"] by (simp add: add.assoc)
  qed
  ultimately show ?case by simp
qed

lemma store_bytes_nth:
  "length bs \<le> 2 ^ 32 \<Longrightarrow> i < length bs \<Longrightarrow> store_bytes m a bs (a + of_nat i) = bs ! i"
proof (induction bs arbitrary: m a i)
  case Nil
  then show ?case by simp
next
  case (Cons b bs)
  show ?case
  proof (cases i)
    case 0
    have "store_bytes (m(a := b)) (a + 1) bs a = (m(a := b)) a"
    proof (rule store_bytes_frame)
      fix k assume "k < length bs"
      then have "a + of_nat 0 \<noteq> a + of_nat (Suc k)"
        using Cons.prems(1) by (subst addr_offset_eq_iff) simp_all
      then show "a \<noteq> a + 1 + of_nat k" by (simp add: add.assoc)
    qed
    then show ?thesis using 0 by simp
  next
    case (Suc k)
    then have "store_bytes (m(a := b)) (a + 1) bs (a + 1 + of_nat k) = bs ! k"
      using Cons.prems by (intro Cons.IH) simp_all
    then show ?thesis using Suc by (simp add: add.assoc)
  qed
qed

lemma load_store_bytes:
  "length bs \<le> 2 ^ 32 \<Longrightarrow> load_bytes (store_bytes m a bs) a (length bs) = bs"
  by (rule nth_equalityI) (simp_all add: store_bytes_nth)

lemma load_store_jshort [simp]: "load_jshort (store_jshort m a v) a = v"
  using load_store_bytes [of "bytes_of 2 v" m a] by (simp add: load_jshort_def store_jshort_def)

lemma load_store_jint [simp]: "load_jint (store_jint m a v) a = v"
  using load_store_bytes [of "bytes_of 4 v" m a] by (simp add: load_jint_def store_jint_def)

lemma load_store_jlong [simp]: "load_jlong (store_jlong m a v) a = v"
  using load_store_bytes [of "bytes_of 8 v" m a] by (simp add: load_jlong_def store_jlong_def)

lemma load_bytes_8:
  "load_bytes m a 8 = [m a, m (a + 1), m (a + 2), m (a + 3), m (a + 4), m (a + 5), m (a + 6), m (a + 7)]"
  by (simp add: load_bytes_def upt_rec [of _ "numeral n" for n])

text \<open>Both paths of the long accessors act as one load or store of the eight bytes.\<close>

lemma local_buffer_8:
  "(replicate 8 z)[0 := x0, Suc 0 := x1, 2 := x2, 3 := x3, 4 := x4, 5 := x5, 6 := x6, 7 := x7] =
     [x0, x1, x2, x3, x4, x5, x6, x7]"
  by (simp add: eval_nat_numeral)

lemma OSMemory_peekLong_eq:
  "OSMemory_peekLong arch m a swap =
     Inr (if swap then bswap_64 (load_jlong m a) else load_jlong m a)"
  by (simp add: OSMemory_peekLong_def deref_load_jlong_def load_jlong_def load_bytes_8
      local_buffer_8 del: word_of_bytes.simps)

lemma OSMemory_pokeLong_eq:
  "OSMemory_pokeLong arch m a v swap =
     Inr (store_jlong m a (if swap then bswap_64 v else v))"
  by (simp add: OSMemory_pokeLong_def deref_store_jlong_def store_jlong_def bytes_of_8
      add.assoc Let_def)
section \<open>Arithmetic on addresses and sizes\<close>

lemma unat_of_nat_addr: "n < 2 ^ 32 \<Longrightarrow> unat (of_nat n :: addr) = n"
  by (simp add: unat_of_nat)

lemma nonneg_jint_unat:
  fixes N :: jint
  assumes "0 \<le> sint N"
  shows "unat N = nat (sint N)" "unat N < 2 ^ 31" "unat (N + 8) = unat N + 8"
proof -
  have "sint N < 2 ^ 31" using sint_lt [of N] by simp
  then have "take_bit 32 (sint N) = sint N"
    using assms by (simp add: take_bit_int_eq_self)
  then have eq: "sint N = uint N" using uint_sint [of N] by simp
  then show 1: "unat N = nat (sint N)" by simp
  have "sint N < 2 ^ 31" using sint_lt [of N] by simp
  then have "nat (sint N) < 2 ^ 31" using assms by (simp add: nat_less_iff)
  then show 2: "unat N < 2 ^ 31" using 1 by simp
  then show "unat (N + 8) = unat N + 8"
    by (simp add: unat_word_ariths)
qed

section \<open>The swap routines as cell loops\<close>

declare word_of_bytes.simps [simp del]

lemma load_bytes_2: "load_bytes m a 2 = [m a, m (a + 1)]"
  by (simp add: load_bytes_def upt_rec [of _ "numeral n" for n])

lemma load_bytes_4: "load_bytes m a 4 = [m a, m (a + 1), m (a + 2), m (a + 3)]"
  by (simp add: load_bytes_def upt_rec [of _ "numeral n" for n])

lemma load_bytes_Suc: "load_bytes m a (Suc n) = m a # load_bytes m (a + 1) n"
proof (rule nth_equalityI)
  show "length (load_bytes m a (Suc n)) = length (m a # load_bytes m (a + 1) n)" by simp
next
  fix i assume "i < length (load_bytes m a (Suc n))"
  then have "i < Suc n" by simp
  then show "load_bytes m a (Suc n) ! i = (m a # load_bytes m (a + 1) n) ! i"
    by (cases i) (simp_all add: add.assoc)
qed

lemma store_bytes_append:
  "store_bytes m a (xs @ ys) = store_bytes (store_bytes m a xs) (a + of_nat (length xs)) ys"
  by (induction xs arbitrary: m a) (simp_all add: add.assoc)

lemma swap_int_step:
  "store_jint m d (fastSwap32 arch (load_jint m s)) = store_bytes m d (rev (load_bytes m s 4))"
  by (simp add: store_jint_def load_jint_def fastSwap32_bytes load_bytes_4)

lemma swap_short_step:
  "store_jshort m d (fastSwap16 arch (load_jshort m s)) = store_bytes m d (rev (load_bytes m s 2))"
  by (simp add: store_jshort_def load_jshort_def fastSwap16_bytes load_bytes_2)

lemma mask16: "(0xffff :: jint) = mask 16"
  by (simp add: mask_eq_exp_minus_1)

lemma exchange_halves_bytes:
  "bytes_of 4 (push_bit 16 v OR (signed_drop_bit 16 v AND 0xffff) :: jint) =
     [ucast (drop_bit 16 v), ucast (drop_bit 24 v), ucast v, ucast (drop_bit 8 v)]"
  unfolding bytes_of_4 mask16
  by (simp; intro conjI; rule bit_word_eqI) (auto simp: bit_simps)

lemma swap_pair_step:
  "store_jint m d (let v = fastSwap32 arch (load_jint m s) in push_bit 16 v OR (signed_drop_bit 16 v AND 0xffff)) =
     store_bytes m d (swap_pair (load_bytes m s 4))"
proof -
  let ?v = "fastSwap32 arch (load_jint m s)"
  have "bytes_of 4 ?v = [m (s + 3), m (s + 2), m (s + 1), m s]"
    by (simp add: load_jint_def fastSwap32_bytes load_bytes_4)
  then have "[ucast ?v, ucast (drop_bit 8 ?v), ucast (drop_bit 16 ?v), ucast (drop_bit 24 ?v)] =
      [m (s + 3), m (s + 2), m (s + 1), m s]"
    by (simp only: bytes_of_4)
  then show ?thesis
    by (simp add: store_jint_def exchange_halves_bytes swap_pair_def load_bytes_4 Let_def)
qed

lemma swapInts_loop_cells: "swapInts_loop arch m d s n = cells 4 rev m d s n"
  by (induction n arbitrary: m d s) (simp_all add: swap_int_step Let_def)

lemma swapShorts_each_cells: "swapShorts_each arch m d s n = cells 2 rev m d s n"
  by (induction n arbitrary: m d s) (simp_all add: swap_short_step)

lemma swapShorts_pairs_cells:
  "swapShorts_pairs arch m d s n = (cells 4 swap_pair m d s n, d + of_nat (4 * n), s + of_nat (4 * n))"
proof (induction n arbitrary: m d s)
  case 0
  show ?case by simp
next
  case (Suc n)
  show ?case
    using swap_pair_step [of m d arch s]
    by (simp add: Suc Let_def add.assoc)
qed

lemma swap_long_step:
  "store_jint (store_jint m d (fastSwap32 arch (load_jint m (s + 4)))) (d + 4) (fastSwap32 arch (load_jint m s)) =
     store_bytes m d (rev (load_bytes m s 8))"
proof -
  let ?hi = "rev (load_bytes m (s + 4) 4)" and ?lo = "rev (load_bytes m s 4)"
  have r: "rev (load_bytes m s 8) = ?hi @ ?lo"
    by (simp add: load_bytes_8 load_bytes_4 add.assoc)
  have "store_bytes m d (?hi @ ?lo) = store_bytes (store_bytes m d ?hi) (d + of_nat (length ?hi)) ?lo"
    by (rule store_bytes_append)
  also have "\<dots> = store_bytes (store_bytes m d ?hi) (d + 4) ?lo"
    by simp
  also have "\<dots> = store_jint (store_jint m d (fastSwap32 arch (load_jint m (s + 4)))) (d + 4)
      (fastSwap32 arch (load_jint m s))"
    by (simp add: store_jint_def load_jint_def fastSwap32_bytes load_bytes_4)
  finally show ?thesis by (simp add: r)
qed

lemma swapLongs_loop_cells: "swapLongs_loop arch m d s n = cells 8 rev m d s n"
  by (induction n arbitrary: m d s) (simp_all add: swap_long_step Let_def add.assoc)

section \<open>What a cell loop leaves in memory\<close>

lemma cells_frame:
  assumes lenf: "\<And>bs. length bs = w \<Longrightarrow> length (f bs) = w"
    and out: "\<And>i. i < w * n \<Longrightarrow> x \<noteq> dst + of_nat i"
  shows "cells w f m dst src n x = m x"
  using out
proof (induction n arbitrary: m dst src)
  case 0
  show ?case by simp
next
  case (Suc n)
  let ?m1 = "store_bytes m dst (f (load_bytes m src w))"
  have "cells w f ?m1 (dst + of_nat w) (src + of_nat w) n x = ?m1 x"
  proof (rule Suc.IH)
    fix i assume "i < w * n"
    then have "x \<noteq> dst + of_nat (w + i)" by (intro Suc.prems) simp
    then show "x \<noteq> dst + of_nat w + of_nat i" by (simp add: add.assoc)
  qed
  also have "?m1 x = m x"
  proof (rule store_bytes_frame)
    fix i assume "i < length (f (load_bytes m src w))"
    then have "i < w" by (simp add: lenf)
    then show "x \<noteq> dst + of_nat i" by (intro Suc.prems) simp
  qed
  finally show ?case by simp
qed

lemma load_bytes_cong:
  "(\<And>i. i < n \<Longrightarrow> m' (a + of_nat i) = m (a + of_nat i)) \<Longrightarrow> load_bytes m' a n = load_bytes m a n"
  by (simp add: load_bytes_def)

lemma cells_content:
  assumes lenf: "\<And>bs. length bs = w \<Longrightarrow> length (f bs) = w"
    and nowrap: "w * n \<le> 2 ^ 32"
    and safe: "\<And>j k. k < j \<Longrightarrow> j < w * n \<Longrightarrow> src + of_nat j \<noteq> dst + of_nat k"
    and c: "c < n"
  shows "load_bytes (cells w f m dst src n) (dst + of_nat (w * c)) w =
           f (load_bytes m (src + of_nat (w * c)) w)"
  using nowrap safe c
proof (induction n arbitrary: m dst src c)
  case 0
  then show ?case by simp
next
  case (Suc n)
  let ?m1 = "store_bytes m dst (f (load_bytes m src w))"
  let ?m' = "cells w f ?m1 (dst + of_nat w) (src + of_nat w) n"
  have len1: "length (f (load_bytes m src w)) = w" by (simp add: lenf)
  have w32: "w \<le> 2 ^ 32"
  proof -
    have "w \<le> w * Suc n" by simp
    then show ?thesis using Suc.prems(1) by (rule order_trans)
  qed
  show ?case
  proof (cases c)
    case 0
    have "load_bytes ?m' dst w = load_bytes ?m1 dst w"
    proof (rule load_bytes_cong)
      fix i assume i: "i < w"
      show "?m' (dst + of_nat i) = ?m1 (dst + of_nat i)"
      proof (rule cells_frame [OF lenf])
        fix k assume k: "k < w * n"
        have "w + k < 2 ^ 32" using k Suc.prems(1) by simp
        moreover have "i < 2 ^ 32" using i w32 by simp
        ultimately have "dst + of_nat i \<noteq> dst + of_nat (w + k)"
          using i by (subst addr_offset_eq_iff) simp_all
        then show "dst + of_nat i \<noteq> dst + of_nat w + of_nat k" by (simp add: add.assoc)
      qed simp
    qed
    also have "\<dots> = f (load_bytes m src w)"
      using load_store_bytes [of "f (load_bytes m src w)" m dst] w32 by (simp add: len1)
    finally show ?thesis using 0 by simp
  next
    case (Suc c')
    have "load_bytes ?m' (dst + of_nat w + of_nat (w * c')) w =
        f (load_bytes ?m1 (src + of_nat w + of_nat (w * c')) w)"
    proof (rule Suc.IH)
      show "w * n \<le> 2 ^ 32" using Suc.prems(1) by simp
      show "c' < n" using Suc.prems(3) Suc by simp
      fix j k assume "k < j" "j < w * n"
      then have "src + of_nat (w + j) \<noteq> dst + of_nat (w + k)"
        by (intro Suc.prems(2)) simp_all
      then show "src + of_nat w + of_nat j \<noteq> dst + of_nat w + of_nat k"
        by (simp add: add.assoc)
    qed
    moreover have "load_bytes ?m1 (src + of_nat w + of_nat (w * c')) w =
        load_bytes m (src + of_nat w + of_nat (w * c')) w"
    proof (rule load_bytes_cong)
      fix i assume i: "i < w"
      show "?m1 (src + of_nat w + of_nat (w * c') + of_nat i) = m (src + of_nat w + of_nat (w * c') + of_nat i)"
      proof (rule store_bytes_frame)
        fix k assume "k < length (f (load_bytes m src w))"
        then have k: "k < w" by (simp add: len1)
        have "Suc c' \<le> n" using Suc.prems(3) Suc by simp
        then have "w * Suc c' \<le> w * n" by (rule mult_le_mono2)
        then have "w + w * c' + i < w * Suc n"
          using i by simp
        then have "src + of_nat (w + w * c' + i) \<noteq> dst + of_nat k"
          using k by (intro Suc.prems(2)) simp_all
        then show "src + of_nat w + of_nat (w * c') + of_nat i \<noteq> dst + of_nat k"
          by (simp add: add.assoc)
      qed
    qed
    ultimately show ?thesis using Suc by (simp add: add.assoc)
  qed
qed

lemma inplace_safe:
  fixes a :: addr
  assumes "N \<le> 2 ^ 32" "k < j" "j < N"
  shows "a + of_nat j \<noteq> a + of_nat k"
  using assms by (subst addr_offset_eq_iff) simp_all

lemma apart_safe:
  assumes ap: "apart dst src N" and N: "N \<le> 2 ^ 32" and j: "j < N" and k: "k < N"
  shows "src + of_nat j \<noteq> dst + of_nat k"
proof
  assume eq: "src + of_nat j = dst + of_nat k"
  show False
  proof (cases "k \<le> j")
    case True
    have "dst - src = of_nat j - of_nat k" using eq by (simp add: algebra_simps)
    also have "\<dots> = of_nat (j - k)" using True by simp
    finally have "unat (dst - src) = j - k"
      using j N by (simp add: unat_of_nat_addr)
    then show False using ap j unfolding apart_def by linarith
  next
    case False
    then have kj: "j \<le> k" by simp
    have "src - dst = of_nat k - of_nat j" using eq by (simp add: algebra_simps)
    also have "\<dots> = of_nat (k - j)" using kj by simp
    finally have "unat (src - dst) = k - j"
      using k N by (simp add: unat_of_nat_addr)
    then show False using ap k unfolding apart_def by linarith
  qed
qed

lemma cells_snoc:
  "cells w f m d s (Suc n) =
     store_bytes (cells w f m d s n) (d + of_nat (w * n))
       (f (load_bytes (cells w f m d s n) (s + of_nat (w * n)) w))"
proof (induction n arbitrary: m d s)
  case 0
  show ?case by simp
next
  case (Suc n)
  show ?case
    using Suc [of "store_bytes m d (f (load_bytes m s w))" "d + of_nat w" "s + of_nat w"]
    by (simp add: add.assoc)
qed

lemma cells_inplace_involutive:
  assumes lenf: "\<And>bs. length bs = w \<Longrightarrow> length (f bs) = w"
    and invf: "\<And>bs. length bs = w \<Longrightarrow> f (f bs) = bs"
    and nowrap: "w * n \<le> 2 ^ 32"
  shows "cells w f (cells w f m a a n) a a n = m"
proof (rule ext)
  fix x
  let ?m1 = "cells w f m a a n"
  let ?m2 = "cells w f ?m1 a a n"
  have safe: "\<And>j k. k < j \<Longrightarrow> j < w * n \<Longrightarrow> a + of_nat j \<noteq> a + of_nat k"
    using nowrap by (rule inplace_safe)
  show "?m2 x = m x"
  proof (cases "\<exists>i<w * n. x = a + of_nat i")
    case True
    then obtain i where i: "i < w * n" and x: "x = a + of_nat i" by blast
    define c k where "c = i div w" and "k = i mod w"
    have w0: "0 < w" using i by (cases w) simp_all
    have k: "k < w" using w0 by (simp add: k_def)
    have c: "c < n" using i w0 by (simp add: c_def less_mult_imp_div_less mult.commute)
    have ick: "i = w * c + k" by (simp add: c_def k_def)
    have "?m2 x = load_bytes ?m2 (a + of_nat (w * c)) w ! k"
      using k by (simp add: x ick add.assoc)
    also have "load_bytes ?m2 (a + of_nat (w * c)) w = f (load_bytes ?m1 (a + of_nat (w * c)) w)"
      using lenf nowrap safe c by (rule cells_content)
    also have "load_bytes ?m1 (a + of_nat (w * c)) w = f (load_bytes m (a + of_nat (w * c)) w)"
      using lenf nowrap safe c by (rule cells_content)
    also have "f (f (load_bytes m (a + of_nat (w * c)) w)) = load_bytes m (a + of_nat (w * c)) w"
      by (rule invf) simp
    also have "load_bytes m (a + of_nat (w * c)) w ! k = m x"
      using k by (simp add: x ick add.assoc)
    finally show ?thesis .
  next
    case False
    then have out: "\<And>i. i < w * n \<Longrightarrow> x \<noteq> a + of_nat i" by blast
    have "?m2 x = ?m1 x" using lenf out by (rule cells_frame)
    also have "\<dots> = m x" using lenf out by (rule cells_frame)
    finally show ?thesis .
  qed
qed

lemma pair_as_two_shorts:
  assumes "d - s \<noteq> 1" "d - s \<noteq> 2" "d - s \<noteq> 3"
  shows "store_bytes m d (swap_pair (load_bytes m s 4)) =
     store_bytes (store_bytes m d (rev (load_bytes m s 2))) (d + 2)
       (rev (load_bytes (store_bytes m d (rev (load_bytes m s 2))) (s + 2) 2))"
proof -
  have ne: "s + 2 \<noteq> d" "s + 2 \<noteq> d + 1" "s + 3 \<noteq> d" "s + 3 \<noteq> d + 1"
    using assms by (auto simp: algebra_simps)
  show ?thesis
    using ne by (simp add: load_bytes_4 load_bytes_2 swap_pair_def add.assoc)
qed

lemma pairs_as_shorts:
  assumes "d - s \<noteq> 1" "d - s \<noteq> 2" "d - s \<noteq> 3"
  shows "cells 4 swap_pair m d s n = cells 2 rev m d s (2 * n)"
  using assms
proof (induction n arbitrary: m d s)
  case 0
  show ?case by simp
next
  case (Suc n)
  have "d + 4 - (s + 4) = d - s" by simp
  then have IH: "cells 4 swap_pair m' (d + 4) (s + 4) n = cells 2 rev m' (d + 4) (s + 4) (2 * n)" for m'
    using Suc.prems by (intro Suc.IH) simp_all
  show ?case
    using pair_as_two_shorts [OF Suc.prems, of m]
    by (simp add: IH add.assoc)
qed

lemma fastSwap16_word_of_bytes:
  "fastSwap16 arch (word_of_bytes [x, y]) = word_of_bytes [y, x]"
proof -
  have "bytes_of 2 (fastSwap16 arch (word_of_bytes [x, y])) = [y, x]"
    by (simp add: fastSwap16_bytes)
  then have "word_of_bytes (bytes_of 2 (fastSwap16 arch (word_of_bytes [x, y]))) = (word_of_bytes [y, x] :: jshort)"
    by simp
  then show ?thesis by (simp only: word_of_bytes_of_2)
qed

lemma swapShorts_cells:
  assumes "unat count div 2 = 0 \<or> (d - s \<noteq> 1 \<and> d - s \<noteq> 2 \<and> d - s \<noteq> 3)"
  shows "swapShorts arch m d s count = cells 2 rev m d s (unat count)"
proof -
  define n where "n = unat count div 2"
  have n: "unat (count div 2) = n" by (simp add: n_def unat_div)
  have pairs: "cells 4 swap_pair m d s n = cells 2 rev m d s (2 * n)"
  proof (cases "n = 0")
    case True
    then show ?thesis by simp
  next
    case False
    then show ?thesis using assms by (intro pairs_as_shorts) (simp_all add: n_def)
  qed
  have odd_iff: "count mod 2 \<noteq> 0 \<longleftrightarrow> unat count mod 2 = 1"
  proof -
    have "unat (count mod 2) = unat count mod 2" by (simp add: unat_mod)
    moreover have "count mod 2 = 0 \<longleftrightarrow> unat (count mod 2) = 0" by (simp add: unat_eq_0)
    ultimately show ?thesis by presburger
  qed
  show ?thesis
  proof (cases "count mod 2 \<noteq> 0")
    case True
    then have "unat count = Suc (2 * n)" using odd_iff by (simp add: n_def) presburger
    then show ?thesis
      using True cells_snoc [of 2 rev m d s "2 * n"]
      by (simp add: swapShorts_def swapShorts_pairs_cells n pairs swap_short_step)
  next
    case False
    then have "unat count = 2 * n" using odd_iff by (simp add: n_def) presburger
    then show ?thesis
      using False by (simp add: swapShorts_def swapShorts_pairs_cells n pairs)
  qed
qed

lemma cells_shorts_content:
  assumes nowrap: "2 * n \<le> 2 ^ 32"
    and safe: "\<And>j k. k < j \<Longrightarrow> j < 2 * n \<Longrightarrow> s + of_nat j \<noteq> d + of_nat k"
  shows "load_shorts (cells 2 rev m d s n) d n = map (fastSwap16 arch) (load_shorts m s n)"
proof -
  have "load_jshort (cells 2 rev m d s n) (d + of_nat (2 * j)) =
      fastSwap16 arch (load_jshort m (s + of_nat (2 * j)))" if "j < n" for j
  proof -
    have "load_bytes (cells 2 rev m d s n) (d + of_nat (2 * j)) 2 = rev (load_bytes m (s + of_nat (2 * j)) 2)"
      using _ nowrap safe that by (rule cells_content) simp
    then show ?thesis
      by (simp add: load_jshort_def load_bytes_2 fastSwap16_word_of_bytes)
  qed
  then show ?thesis by (simp add: load_shorts_def)
qed

lemma buffers_safe:
  assumes "dst = src \<or> apart dst src N" and "N \<le> 2 ^ 32" and "k < j" and "j < N"
  shows "src + of_nat j \<noteq> dst + of_nat k"
  using assms inplace_safe [of N k j src] apart_safe [of dst src N j k] by auto

section \<open>The allocator keeps its invariant\<close>

lemma in_block_offset:
  fixes n :: size_t
  assumes "i < unat n"
  shows "in_block (b + of_nat i) b n"
proof -
  have "unat n < 2 ^ 32" using unsigned_less [of n, where 'a = nat] by simp
  then have "i < 2 ^ 32" using assms by simp
  then have "unat (of_nat i :: addr) = i" by (rule unat_of_nat_addr)
  then show ?thesis using assms by (simp add: in_block_def word_less_nat_alt)
qed

lemma in_block_header:
  fixes n :: size_t
  assumes "8 \<le> n" "i < 8"
  shows "in_block (b + of_nat i) b n"
proof -
  have "8 \<le> unat n" using assms(1) by (simp add: word_le_nat_alt)
  then show ?thesis using assms(2) by (intro in_block_offset) simp
qed

lemma load_jlong_cong:
  "(\<And>i. i < 8 \<Longrightarrow> m' (a + of_nat i) = m (a + of_nat i)) \<Longrightarrow> load_jlong m' a = load_jlong m a"
proof -
  assume "\<And>i. i < 8 \<Longrightarrow> m' (a + of_nat i) = m (a + of_nat i)"
  then have "load_bytes m' a 8 = load_bytes m a 8" by (rule load_bytes_cong)
  then show ?thesis by (simp only: load_jlong_def)
qed

lemma store_jlong_frame:
  "(\<And>i. i < 8 \<Longrightarrow> x \<noteq> a + of_nat i) \<Longrightarrow> store_jlong m a v x = m x"
  unfolding store_jlong_def by (rule store_bytes_frame) simp

lemma admitted_size:
  fixes N :: jint
  assumes "admits_no_negative track" "track w (scast N)"
  shows "0 \<le> sint N" "8 \<le> N + 8" "N + 8 - 8 = N" "0 < unat (N + 8)"
proof -
  have "0 \<le> sint (scast N :: jlong)" using assms by (auto simp: admits_no_negative_def)
  moreover have "sint (scast N :: jlong) = sint N"
    by (rule sint_up_scast) (simp add: is_up)
  ultimately show N0: "0 \<le> sint N" by simp
  have "unat (N + 8) = unat N + 8" using N0 by (rule nonneg_jint_unat)
  then show "8 \<le> N + 8" "0 < unat (N + 8)" by (simp_all add: word_le_nat_alt)
  show "N + 8 - 8 = N" by simp
qed

lemma malloc_outcome:
  obtains (failed) "snd (OSMemory_malloc track pick w N) = 0"
      "heap (fst (OSMemory_malloc track pick w N)) = heap w"
      "mem (fst (OSMemory_malloc track pick w N)) = mem w"
  | (succeeded) b where "track w (scast N)"
      "b = pick (emit (TrackExternalAllocation (scast N)) w) (N + 8)" "b \<noteq> 0"
      "snd (OSMemory_malloc track pick w N) = b + 8"
      "heap (fst (OSMemory_malloc track pick w N)) = (heap w)(b \<mapsto> N + 8)"
      "mem (fst (OSMemory_malloc track pick w N)) =
         store_jlong (\<lambda>x. if in_block x b (N + 8) then 0 else mem w x) b (scast N)"
      "trace (fst (OSMemory_malloc track pick w N)) = trace w @ [TrackExternalAllocation (scast N)]"
      "pending (fst (OSMemory_malloc track pick w N)) = pending w"
proof (cases "track w (scast N) \<and> pick (emit (TrackExternalAllocation (scast N)) w) (N + 8) \<noteq> 0")
  case False
  then have "snd (OSMemory_malloc track pick w N) = 0"
      "heap (fst (OSMemory_malloc track pick w N)) = heap w"
      "mem (fst (OSMemory_malloc track pick w N)) = mem w"
    by (auto simp: OSMemory_malloc_def libc_calloc_def jniThrowException_def emit_def Let_def)
  then show ?thesis by (rule failed)
next
  case True
  define b where "b = pick (emit (TrackExternalAllocation (scast N)) w) (N + 8)"
  have res: "OSMemory_malloc track pick w N =
      (emit (TrackExternalAllocation (scast N)) w
         \<lparr>mem := store_jlong (\<lambda>x. if in_block x b (N + 8) then 0 else mem w x) b (scast N),
          heap := (heap w)(b \<mapsto> N + 8)\<rparr>, b + 8)"
    using True by (simp add: OSMemory_malloc_def libc_calloc_def Let_def emit_def b_def cong: if_cong)
  show ?thesis
  proof (rule succeeded [of b])
    show "track w (scast N)" using True by simp
    show "b = pick (emit (TrackExternalAllocation (scast N)) w) (N + 8)" by (rule b_def)
    show "b \<noteq> 0" using True by (simp add: b_def)
  qed (simp_all add: res emit_def)
qed

lemma inv_malloc:
  assumes auth: "admits_no_negative track" and libc: "fresh_blocks pick" and I: "alloc_inv w"
  shows "alloc_inv (fst (OSMemory_malloc track pick w N))"
proof (cases rule: malloc_outcome [of track pick w N])
  case failed
  then show ?thesis
    using I by (simp add: alloc_inv_def header_inv_def blocks_disjoint_def)
next
  case (succeeded b)
  let ?w' = "fst (OSMemory_malloc track pick w N)"
  let ?n = "N + 8"
  let ?mz = "\<lambda>x. if in_block x b ?n then 0 else mem w x"
  note adm = admitted_size [OF auth succeeded(1)]
  have fresh: "\<not> in_block x b ?n" if "heap w b' = Some n'" "in_block x b' n'" for b' n' x
  proof -
    let ?w1 = "emit (TrackExternalAllocation (scast N)) w"
    have "heap ?w1 b' = Some n'" using that(1) by (simp add: emit_def)
    moreover have "pick ?w1 ?n \<noteq> 0" using succeeded(2,3) by simp
    ultimately have "\<not> in_block x (pick ?w1 ?n) ?n"
      using libc that(2) unfolding fresh_blocks_def by blast
    then show ?thesis using succeeded(2) by simp
  qed
  have hdr_in: "in_block (b + of_nat k) b ?n" if "k < 8" for k
    using adm(2) that by (rule in_block_header)
  have keep: "mem ?w' y = mem w y" if "\<not> in_block y b ?n" for y
  proof -
    have "store_jlong ?mz b (scast N) y = ?mz y"
    proof (rule store_jlong_frame)
      fix k :: nat assume "k < 8"
      then show "y \<noteq> b + of_nat k" using hdr_in that by blast
    qed
    then show ?thesis using that by (simp add: succeeded(6))
  qed
  have H: "header_inv ?w'"
    unfolding header_inv_def
  proof (intro allI impI)
    fix b'' n'' assume live: "heap ?w' b'' = Some n''"
    show "8 \<le> n'' \<and> 0 \<le> sint (n'' - 8) \<and> load_jlong (mem ?w') b'' = scast (n'' - 8)"
    proof (cases "b'' = b")
      case True
      then have "n'' = ?n" using live by (simp add: succeeded(5))
      then show ?thesis using adm True by (simp add: succeeded(6))
    next
      case False
      then have old: "heap w b'' = Some n''" using live by (simp add: succeeded(5))
      then have h: "8 \<le> n''" "0 \<le> sint (n'' - 8)" "load_jlong (mem w) b'' = scast (n'' - 8)"
        using I by (auto simp: alloc_inv_def header_inv_def)
      have "load_jlong (mem ?w') b'' = load_jlong (mem w) b''"
      proof (rule load_jlong_cong)
        fix i :: nat assume "i < 8"
        then have "in_block (b'' + of_nat i) b'' n''" using h(1) by (intro in_block_header)
        then have "\<not> in_block (b'' + of_nat i) b ?n" using old by (intro fresh)
        then show "mem ?w' (b'' + of_nat i) = mem w (b'' + of_nat i)" by (rule keep)
      qed
      then show ?thesis using h by simp
    qed
  qed
  have D: "blocks_disjoint ?w'"
    unfolding blocks_disjoint_def
  proof (intro allI impI)
    fix b1 n1 b2 n2 x
    assume l1: "heap ?w' b1 = Some n1" and l2: "heap ?w' b2 = Some n2"
      and x1: "in_block x b1 n1" and x2: "in_block x b2 n2"
    show "b1 = b2"
    proof (cases "b1 = b")
      case b1: True
      show ?thesis
      proof (cases "b2 = b")
        case True
        then show ?thesis using b1 by simp
      next
        case False
        then have "heap w b2 = Some n2" using l2 by (simp add: succeeded(5))
        then have "\<not> in_block x b ?n" using x2 by (intro fresh)
        then show ?thesis using b1 l1 x1 by (simp add: succeeded(5))
      qed
    next
      case nb1: False
      then have o1: "heap w b1 = Some n1" using l1 by (simp add: succeeded(5))
      show ?thesis
      proof (cases "b2 = b")
        case True
        have "\<not> in_block x b ?n" using o1 x1 by (intro fresh)
        then show ?thesis using True l2 x2 by (simp add: succeeded(5))
      next
        case False
        then have "heap w b2 = Some n2" using l2 by (simp add: succeeded(5))
        then show ?thesis using I o1 x1 x2 unfolding alloc_inv_def blocks_disjoint_def by blast
      qed
    qed
  qed
  from H D show ?thesis by (simp add: alloc_inv_def)
qed

lemma free_world:
  "OSMemory_free w a =
     w\<lparr>heap := (heap w)(a - 8 := None),
       trace := trace w @ [TrackExternalFree (load_jlong (mem w) (a - 8)), LibcFree (a - 8)]\<rparr>"
  by (simp add: OSMemory_free_def libc_free_def emit_def Let_def)

lemma inv_free: "alloc_inv w \<Longrightarrow> alloc_inv (OSMemory_free w a)"
  unfolding alloc_inv_def header_inv_def blocks_disjoint_def free_world
  by (simp split: if_splits)

lemma inv_poke:
  assumes I: "alloc_inv w" and live: "heap w b = Some n" and pay: "8 \<le> x - b" and inb: "in_block x b n"
  shows "alloc_inv (OSMemory_pokeByte w x v)"
proof -
  have "load_jlong (mem (OSMemory_pokeByte w x v)) b' = load_jlong (mem w) b'"
    if l': "heap w b' = Some n'" for b' n'
  proof (rule load_jlong_cong)
    fix i :: nat assume i: "i < 8"
    have h: "8 \<le> n'" using I l' by (auto simp: alloc_inv_def header_inv_def)
    have "x \<noteq> b' + of_nat i"
    proof
      assume eq: "x = b' + of_nat i"
      then have "in_block x b' n'" using h i by (simp add: in_block_header)
      then have "b = b'"
        using I live l' inb unfolding alloc_inv_def blocks_disjoint_def by blast
      then have "x - b = of_nat i" using eq by simp
      moreover have "unat (of_nat i :: addr) = i" using i by (intro unat_of_nat_addr) simp
      ultimately have "unat (x - b) < 8" using i by simp
      then show False using pay by (simp add: word_le_nat_alt)
    qed
    then show "mem (OSMemory_pokeByte w x v) (b' + of_nat i) = mem w (b' + of_nat i)"
      by (simp add: OSMemory_pokeByte_def)
  qed
  then show ?thesis
    using I unfolding alloc_inv_def header_inv_def blocks_disjoint_def
    by (simp add: OSMemory_pokeByte_def)
qed

lemma inv_evolves:
  assumes "admits_no_negative track" "fresh_blocks pick"
  shows "evolves track pick keep w w' \<Longrightarrow> alloc_inv w \<Longrightarrow> alloc_inv w'"
  by (induction rule: evolves.induct) (simp_all add: inv_malloc [OF assms] inv_free inv_poke)

lemma alloc_inv_start: "heap w = Map.empty \<Longrightarrow> alloc_inv w"
  by (simp add: alloc_inv_def header_inv_def blocks_disjoint_def)

lemma block_kept:
  assumes auth: "admits_no_negative track" and libc: "fresh_blocks pick"
  shows "evolves track pick keep w w' \<Longrightarrow> alloc_inv w \<Longrightarrow> a \<in> keep \<Longrightarrow> heap w (a - 8) = Some n \<Longrightarrow>
    heap w' (a - 8) = Some n"
proof (induction rule: evolves.induct)
  case (stay w)
  then show ?case by simp
next
  case (allocate w w' N)
  then have live: "heap w' (a - 8) = Some n" by simp
  have I: "alloc_inv w'" using auth libc allocate.hyps allocate.prems(1) by (rule inv_evolves)
  show ?case
  proof (cases rule: malloc_outcome [of track pick w' N])
    case failed
    then show ?thesis using live by simp
  next
    case (succeeded b)
    note adm = admitted_size [OF auth succeeded(1)]
    have "8 \<le> n" using I live by (auto simp: alloc_inv_def header_inv_def)
    then have "in_block (a - 8 + of_nat 0) (a - 8) n" by (intro in_block_header) simp_all
    then have x: "in_block (a - 8) (a - 8) n" by simp
    let ?w1 = "emit (TrackExternalAllocation (scast N)) w'"
    have "heap ?w1 (a - 8) = Some n" using live by (simp add: emit_def)
    moreover have "pick ?w1 (N + 8) \<noteq> 0" using succeeded(2,3) by simp
    ultimately have "\<not> in_block (a - 8) (pick ?w1 (N + 8)) (N + 8)"
      using libc x unfolding fresh_blocks_def by blast
    then have nb: "\<not> in_block (a - 8) b (N + 8)" using succeeded(2) by simp
    have "in_block (b + of_nat 0) b (N + 8)" using adm(2) by (intro in_block_header) simp_all
    then have "b \<noteq> a - 8" using nb by auto
    then show ?thesis using live by (simp add: succeeded(5))
  qed
next
  case (release w w' a' n')
  then have "a' \<noteq> a" by auto
  then show ?case using release by (simp add: free_world)
next
  case (poke w w' b n' x v)
  then show ?case by (simp add: OSMemory_pokeByte_def)
qed

text \<open>
  Released at once, an allocation reports its size whatever the collaborators are like.
\<close>

lemma release_after_allocate:
  assumes "OSMemory_malloc track pick w N = (w1, a)" "track w (scast N)"
    "pick (emit (TrackExternalAllocation (scast N)) w) (N + 8) \<noteq> 0"
  shows "OSMemory_free w1 a =
     w1\<lparr>heap := (heap w1)(a - 8 := None),
        trace := trace w1 @ [TrackExternalFree (scast N), LibcFree (a - 8)]\<rparr>"
proof -
  define b where "b = pick (emit (TrackExternalAllocation (scast N)) w) (N + 8)"
  have "OSMemory_malloc track pick w N =
      (emit (TrackExternalAllocation (scast N)) w
         \<lparr>mem := store_jlong (\<lambda>x. if in_block x b (N + 8) then 0 else mem w x) b (scast N),
          heap := (heap w)(b \<mapsto> N + 8)\<rparr>, b + 8)"
    using assms(2,3)
    by (simp add: OSMemory_malloc_def libc_calloc_def Let_def emit_def b_def cong: if_cong)
  then have "a = b + 8"
    "mem w1 = store_jlong (\<lambda>x. if in_block x b (N + 8) then 0 else mem w x) b (scast N)"
    using assms(1) by auto
  then show ?thesis by (simp add: free_world)
qed

section \<open>Residency queries\<close>

text \<open>
  A zero-length query is resident; a failing \<^verbatim>\<open>mincore\<close> call gives \<open>False\<close>; and for an
  address that is not negative as a \<^verbatim>\<open>jint\<close> the query starts at the page boundary below
  the address and is longer by the distance to it.
\<close>

lemma isLoaded_zero_size: "OSMemory_isLoaded page_size sys_mincore address 0 = Inr True"
  by (simp add: OSMemory_isLoaded_def)

lemma isLoaded_mincore_failure:
  assumes "size' \<noteq> 0" "isLoaded_query page_size address size' = (a, n, c)" "0 \<le> sint c"
    and "fst (sys_mincore a (ucast n)) = - 1"
  shows "OSMemory_isLoaded page_size sys_mincore address size' = Inr False"
  using assms by (cases "sys_mincore a (ucast n)") (simp add: OSMemory_isLoaded_def)

lemma c_rem_int_nonneg:
  assumes "0 \<le> sint a" "0 < sint p"
  shows "c_rem_int a p = a mod p"
proof -
  have a: "sint a = uint a"
    using assms(1) sint_lt [of a] uint_sint [of a] by (simp add: take_bit_int_eq_self)
  have p: "sint p = uint p"
    using assms(2) sint_lt [of p] uint_sint [of p] by (simp add: take_bit_int_eq_self)
  have "sint a smod sint p = uint a mod uint p"
  proof (cases "uint a = 0")
    case True
    then show ?thesis by (simp add: signed_modulo_int_def a p)
  next
    case False
    then have "0 < uint a" using uint_nonnegative [of a] by linarith
    then have "sgn (uint a) = 1" "\<bar>uint a\<bar> = uint a" "\<bar>uint p\<bar> = uint p"
      using False by auto
    then show ?thesis unfolding signed_modulo_int_def a p by simp
  qed
  then show ?thesis
    by (simp add: c_rem_int_def word_mod_def)
qed

lemma isLoaded_query_low:
  assumes "0 \<le> sint address" "0 < sint page_size"
  shows "isLoaded_query page_size address size' =
    (address - address mod page_size, size' + scast (address mod page_size),
     ucast (c_div_long (size' + scast (address mod page_size) + scast page_size - 1) (scast page_size)))"
  by (simp add: isLoaded_query_def c_rem_int_nonneg [OF assms] Let_def)

text \<open>
  With 4096-byte pages, the 8192 bytes from \<^verbatim>\<open>0x70000001\<close> touch three pages. The query
  covers all three, and a first page that is not resident makes the answer \<open>False\<close>.
\<close>

lemma isLoaded_low_address:
  "isLoaded_query 4096 0x70000001 8192 = (0x70000000, 8193, 3)
   \<and> OSMemory_isLoaded 4096 (mincore_of 4096 (\<lambda>p. p \<noteq> 0x70000000)) 0x70000001 8192 = Inr False"
  by (simp add: OSMemory_isLoaded_def isLoaded_query_def c_rem_int_def c_div_long_def
      signed_modulo_int_def signed_divide_int_def mincore_of_def Let_def
      upt_rec [of _ "numeral n" for n])

section \<open>Scalar access with byte-order conversion\<close>

lemma fastSwap32_example: "fastSwap32 arch 0x01020304 = 0x04030201"
  by (simp add: fastSwap32_eq bswap_32_def)

text \<open>
  Claim C1. \<^verbatim>\<open>pokeInt\<close> with \<^verbatim>\<open>swap = true\<close> stores the byte-reversal of the value: the four
  bytes at the address are the value's bytes in reverse order, and read back as an int they
  are \<open>bswap_32\<close> of it. After \<^verbatim>\<open>pokeInt(A, 0x01020304, swap=true)\<close>, \<^verbatim>\<open>peekInt(A, swap=false)\<close>
  yields \<^verbatim>\<open>0x04030201\<close> and \<^verbatim>\<open>peekInt(A, swap=true)\<close> yields \<^verbatim>\<open>0x01020304\<close>, at every
  address \<open>A\<close> (so also at one that \<^verbatim>\<open>allocate(16)\<close> returned), in every memory and on both
  targets. For each of short, int and long and every value, a swapping poke followed by a
  swapping peek at the same address returns the value.
\<close>

theorem scalar_swap_roundtrip:
  "load_bytes (OSMemory_pokeInt arch m A v True) A 4 = rev (bytes_of 4 v)
   \<and> load_jint (OSMemory_pokeInt arch m A v True) A = bswap_32 v
   \<and> OSMemory_peekInt arch (OSMemory_pokeInt arch m A 0x01020304 True) A False = 0x04030201
   \<and> OSMemory_peekInt arch (OSMemory_pokeInt arch m A 0x01020304 True) A True = 0x01020304
   \<and> OSMemory_peekShort arch (OSMemory_pokeShort arch m a s True) a True = s
   \<and> OSMemory_peekInt arch (OSMemory_pokeInt arch m a i True) a True = i
   \<and> (\<exists>m'. OSMemory_pokeLong arch m a l True = Inr m' \<and> OSMemory_peekLong arch m' a True = Inr l)"
proof (intro conjI)
  show "load_bytes (OSMemory_pokeInt arch m A v True) A 4 = rev (bytes_of 4 v)"
    using load_store_bytes [of "bytes_of 4 (fastSwap32 arch v)" m A]
    by (simp add: OSMemory_pokeInt_def store_jint_def fastSwap32_bytes)
  show "load_jint (OSMemory_pokeInt arch m A v True) A = bswap_32 v"
    by (simp add: OSMemory_pokeInt_def fastSwap32_eq)
  show "OSMemory_peekInt arch (OSMemory_pokeInt arch m A 0x01020304 True) A False = 0x04030201"
    by (simp add: OSMemory_peekInt_def OSMemory_pokeInt_def fastSwap32_example)
  show "OSMemory_peekInt arch (OSMemory_pokeInt arch m A 0x01020304 True) A True = 0x01020304"
    by (simp add: OSMemory_peekInt_def OSMemory_pokeInt_def fastSwap32_involutive)
  show "OSMemory_peekShort arch (OSMemory_pokeShort arch m a s True) a True = s"
    by (simp add: OSMemory_peekShort_def OSMemory_pokeShort_def fastSwap16_involutive)
  show "OSMemory_peekInt arch (OSMemory_pokeInt arch m a i True) a True = i"
    by (simp add: OSMemory_peekInt_def OSMemory_pokeInt_def fastSwap32_involutive)
  show "\<exists>m'. OSMemory_pokeLong arch m a l True = Inr m' \<and> OSMemory_peekLong arch m' a True = Inr l"
    by (simp add: OSMemory_pokeLong_eq OSMemory_peekLong_eq bswap_64_involutive)
qed

theorem scalar_swap_roundtrip_witness:
  "OSMemory_peekInt ARM (OSMemory_pokeInt ARM (\<lambda>_. 0) 0x1000 0x01020304 True) 0x1000 False = 0x04030201
   \<and> OSMemory_peekShort ARM (OSMemory_pokeShort ARM (\<lambda>_. 0) 0x2000 0x0102 True) 0x2000 True = 0x0102"
  using scalar_swap_roundtrip [where arch = ARM and m = "\<lambda>_. 0" and A = "0x1000" and a = "0x2000"
      and s = "0x0102"]
  by simp

text \<open>
  Claim C4. For every 64-bit value, every address (aligned for the target or not), either
  swap flag and both targets, \<^verbatim>\<open>pokeLong\<close> followed by \<^verbatim>\<open>peekLong\<close> with the same flag raises
  no alignment fault and returns the value. Whatever the alignment, \<^verbatim>\<open>pokeLong\<close> leaves the
  memory that one 8-byte store of the (possibly swapped) value leaves, and \<^verbatim>\<open>peekLong\<close>
  returns what one 8-byte load returns (swapped on request): the byte-by-byte path cannot
  be told from the direct one.
\<close>

theorem long_access_any_alignment:
  "(\<exists>m'. OSMemory_pokeLong arch m a v s = Inr m' \<and> OSMemory_peekLong arch m' a s = Inr v)
   \<and> OSMemory_pokeLong arch m a v s = Inr (store_jlong m a (if s then bswap_64 v else v))
   \<and> OSMemory_peekLong arch m a s = Inr (if s then bswap_64 (load_jlong m a) else load_jlong m a)"
  by (simp add: OSMemory_pokeLong_eq OSMemory_peekLong_eq bswap_64_involutive)

theorem long_access_any_alignment_witness:
  "deref_store_jlong ARM (\<lambda>_. 0) 0x1001 0x0102030405060708 = Inl AlignmentFault
   \<and> (\<exists>m'. OSMemory_pokeLong ARM (\<lambda>_. 0) 0x1001 0x0102030405060708 True = Inr m'
         \<and> OSMemory_peekLong ARM m' 0x1001 True = Inr 0x0102030405060708)"
proof -
  have "deref_store_jlong ARM (\<lambda>_. 0) 0x1001 0x0102030405060708 = Inl AlignmentFault"
    by (simp add: deref_store_jlong_def)
  with long_access_any_alignment [of ARM "\<lambda>_. 0" "0x1001" "0x0102030405060708" True]
  show ?thesis by blast
qed

section \<open>The tracked allocator: allocation\<close>

text \<open>
  Claim C2. Whenever the accounting authority admits the size \<open>N\<close> and \<^verbatim>\<open>calloc\<close> returns a
  block \<open>b\<close> that is not \<^verbatim>\<open>NULL\<close>, \<^verbatim>\<open>allocate(N)\<close> returns \<open>a = b + 8\<close>, the address just past
  the 8-byte header; the 8 bytes at \<open>a - 8\<close> hold \<open>N\<close>; the \<open>N\<close> payload bytes from \<open>a\<close> on are
  zero; and the block that the C library now holds at \<open>b\<close> has the \<^verbatim>\<open>size_t\<close> length
  \<open>N + 8\<close>, which for a size that is not negative is the number \<open>N + 8\<close>. No exception is
  left pending.
\<close>

theorem malloc_success:
  assumes adm: "track w (scast N)"
    and blk: "pick (emit (TrackExternalAllocation (scast N)) w) (N + 8) = b" "b \<noteq> 0"
  shows "snd (OSMemory_malloc track pick w N) = b + 8
    \<and> load_jlong (mem (fst (OSMemory_malloc track pick w N))) (snd (OSMemory_malloc track pick w N) - 8) = scast N
    \<and> (\<forall>i. int i < sint N \<longrightarrow> mem (fst (OSMemory_malloc track pick w N)) (snd (OSMemory_malloc track pick w N) + of_nat i) = 0)
    \<and> heap (fst (OSMemory_malloc track pick w N)) = (heap w)(b \<mapsto> N + 8)
    \<and> (0 \<le> sint N \<longrightarrow> int (unat (N + 8)) = sint N + 8)
    \<and> pending (fst (OSMemory_malloc track pick w N)) = pending w"
proof -
  let ?w1 = "emit (TrackExternalAllocation (scast N)) w"
  let ?m1 = "\<lambda>x. if in_block x b (N + 8) then 0 else mem w x"
  have res: "OSMemory_malloc track pick w N =
      (?w1\<lparr>mem := store_jlong ?m1 b (scast N), heap := (heap w)(b \<mapsto> N + 8)\<rparr>, b + 8)"
    using adm blk by (simp add: OSMemory_malloc_def libc_calloc_def Let_def emit_def cong: if_cong)
  have payload: "store_jlong ?m1 b (scast N) (b + 8 + of_nat i) = 0" if "int i < sint N" for i
  proof -
    have N0: "0 \<le> sint N" using that by simp
    have iN: "i < unat N" using that nonneg_jint_unat(1) [OF N0] by simp
    have i31: "i < 2 ^ 31" using iN nonneg_jint_unat(2) [OF N0] by simp
    have "unat (of_nat (8 + i) :: addr) = 8 + i"
      using i31 by (intro unat_of_nat_addr) simp
    then have "(of_nat (8 + i) :: addr) < N + 8"
      using iN nonneg_jint_unat(3) [OF N0] by (simp add: word_less_nat_alt)
    then have inb: "in_block (b + 8 + of_nat i) b (N + 8)"
      by (simp add: in_block_def add.assoc)
    have "store_jlong ?m1 b (scast N) (b + 8 + of_nat i) = ?m1 (b + 8 + of_nat i)"
      unfolding store_jlong_def
    proof (rule store_bytes_frame)
      fix k assume "k < length (bytes_of 8 (scast N :: jlong))"
      then have "k < 8" by simp
      then have "b + of_nat (8 + i) \<noteq> b + of_nat k"
        using i31 by (subst addr_offset_eq_iff) simp_all
      then show "b + 8 + of_nat i \<noteq> b + of_nat k" by (simp add: add.assoc)
    qed
    then show ?thesis using inb by simp
  qed
  show ?thesis
    using payload nonneg_jint_unat [of N]
    by (simp add: res emit_def)
qed

theorem malloc_success_witness:
  "snd (OSMemory_malloc (\<lambda>w n. True) (\<lambda>w n. 0x1000) world0 16) = 0x1008
   \<and> load_jlong (mem (fst (OSMemory_malloc (\<lambda>w n. True) (\<lambda>w n. 0x1000) world0 16))) 0x1000 = 16
   \<and> mem (fst (OSMemory_malloc (\<lambda>w n. True) (\<lambda>w n. 0x1000) world0 16)) (0x1008 + 15) = 0
   \<and> heap (fst (OSMemory_malloc (\<lambda>w n. True) (\<lambda>w n. 0x1000) world0 16)) = [0x1000 \<mapsto> 24]"
proof -
  let ?r = "OSMemory_malloc (\<lambda>w n. True) (\<lambda>w n. 0x1000) world0 16"
  have all: "snd ?r = 0x1000 + 8
    \<and> load_jlong (mem (fst ?r)) (snd ?r - 8) = scast (16 :: jint)
    \<and> (\<forall>i. int i < sint (16 :: jint) \<longrightarrow> mem (fst ?r) (snd ?r + of_nat i) = 0)
    \<and> heap (fst ?r) = (heap world0)(0x1000 \<mapsto> 16 + 8)
    \<and> (0 \<le> sint (16 :: jint) \<longrightarrow> int (unat (16 + 8 :: jint)) = sint (16 :: jint) + 8)
    \<and> pending (fst ?r) = pending world0"
    by (rule malloc_success) simp_all
  then have a: "snd ?r = 0x1008" by simp
  from all have "load_jlong (mem (fst ?r)) (snd ?r - 8) = scast (16 :: jint)" by blast
  then have h: "load_jlong (mem (fst ?r)) 0x1000 = 16" by (simp add: a)
  from all have "int 15 < sint (16 :: jint) \<longrightarrow> mem (fst ?r) (snd ?r + of_nat 15) = 0" by blast
  then have z: "mem (fst ?r) (0x1008 + 15) = 0" by (simp add: a)
  from all have b: "heap (fst ?r) = [0x1000 \<mapsto> 24]" by (simp add: world0_def)
  from a h z b show ?thesis by blast
qed

section \<open>The tracked allocator: failure\<close>

text \<open>
  Claim C7. \<^verbatim>\<open>allocate\<close> fails in two cases: the accounting authority refuses the size, or
  it admits the size and \<^verbatim>\<open>calloc\<close> then returns \<^verbatim>\<open>NULL\<close>. In both the result is 0, an
  \<^verbatim>\<open>OutOfMemoryError\<close> is pending, and the heap and the memory are what they were: no block
  exists that did not exist before.
\<close>

theorem malloc_failure_allocates_nothing:
  assumes "\<not> track w (scast N) \<or> pick (emit (TrackExternalAllocation (scast N)) w) (N + 8) = 0"
  shows "snd (OSMemory_malloc track pick w N) = 0
    \<and> pending (fst (OSMemory_malloc track pick w N)) = Some OutOfMemoryError
    \<and> heap (fst (OSMemory_malloc track pick w N)) = heap w
    \<and> mem (fst (OSMemory_malloc track pick w N)) = mem w"
  using assms
  by (auto simp: OSMemory_malloc_def libc_calloc_def jniThrowException_def emit_def Let_def)

theorem malloc_failure_witness:
  "snd (OSMemory_malloc (\<lambda>w n. False) (\<lambda>w n. 0x1000) world0 16) = 0
   \<and> pending (fst (OSMemory_malloc (\<lambda>w n. False) (\<lambda>w n. 0x1000) world0 16)) = Some OutOfMemoryError
   \<and> heap (fst (OSMemory_malloc (\<lambda>w n. False) (\<lambda>w n. 0x1000) world0 16)) = Map.empty
   \<and> snd (OSMemory_malloc (\<lambda>w n. True) (\<lambda>w n. 0) world0 16) = 0
   \<and> pending (fst (OSMemory_malloc (\<lambda>w n. True) (\<lambda>w n. 0) world0 16)) = Some OutOfMemoryError
   \<and> heap (fst (OSMemory_malloc (\<lambda>w n. True) (\<lambda>w n. 0) world0 16)) = Map.empty"
  using malloc_failure_allocates_nothing [of "\<lambda>w n. False" world0 16 "\<lambda>w n. 0x1000"]
    malloc_failure_allocates_nothing [of "\<lambda>w n. True" world0 16 "\<lambda>w n. 0"]
  by (simp add: world0_def)

section \<open>Mapping a file\<close>

text \<open>
  Claim C5 says that for a mode other than 0, 1 and 2 \<^verbatim>\<open>map\<close> signals an I/O error that
  names the invalid value. The code at the modes 3 and 7: the exception left pending is
  \<^verbatim>\<open>IOException\<close> carrying \<^verbatim>\<open>EINVAL\<close> both times, one and the same value, so it does not
  tell 3 from 7. What names the value is the error line written to the log beside it.
\<close>

theorem mmapImpl_exception_same_for_modes_3_and_7:
  "pending (fst (OSMemory_mmapImpl (\<lambda>a n p f d off. (MAP_FAILED, 12)) world0 5 0 4096 3)) =
     Some (IOException EINVAL)
   \<and> pending (fst (OSMemory_mmapImpl (\<lambda>a n p f d off. (MAP_FAILED, 12)) world0 5 0 4096 7)) =
     Some (IOException EINVAL)
   \<and> pending (fst (OSMemory_mmapImpl (\<lambda>a n p f d off. (MAP_FAILED, 12)) world0 5 0 4096 3)) =
     pending (fst (OSMemory_mmapImpl (\<lambda>a n p f d off. (MAP_FAILED, 12)) world0 5 0 4096 7))
   \<and> trace (fst (OSMemory_mmapImpl (\<lambda>a n p f d off. (MAP_FAILED, 12)) world0 5 0 4096 3)) =
     [ALOGE_bad_mapMode 3]
   \<and> trace (fst (OSMemory_mmapImpl (\<lambda>a n p f d off. (MAP_FAILED, 12)) world0 5 0 4096 7)) =
     [ALOGE_bad_mapMode 7]"
  by (simp add: OSMemory_mmapImpl_def mmap_flags_def jniThrowIOException_def
      jniThrowException_def emit_def world0_def)

text \<open>
  Claim C5, amended. \<^verbatim>\<open>map\<close> translates its mode by the fixed table: 0 (PRIVATE) to
  read+write protection with the private (copy-on-write) flag, 1 (READ_ONLY) to read
  protection with the shared flag, 2 (READ_WRITE) to read+write protection with the shared
  flag. For every other mode it leaves an \<^verbatim>\<open>IOException\<close> carrying \<^verbatim>\<open>EINVAL\<close> pending (the
  same for every invalid value), writes an error line to the log that names the invalid
  value, makes no call to \<^verbatim>\<open>mmap\<close> (the log line is the only event), and returns -1. For a
  valid mode it calls \<^verbatim>\<open>mmap\<close> once with the table's protection and flags; when the call
  answers \<^verbatim>\<open>MAP_FAILED\<close> it leaves an \<^verbatim>\<open>IOException\<close> carrying the call's \<^verbatim>\<open>errno\<close> pending
  and returns \<^verbatim>\<open>MAP_FAILED\<close>, which is -1 as a \<^verbatim>\<open>jint\<close>.
\<close>

theorem mmapImpl_mode_table_and_errors:
  "mmap_flags 0 = Some (PROT_READ OR PROT_WRITE, MAP_PRIVATE)
   \<and> mmap_flags 1 = Some (PROT_READ, MAP_SHARED)
   \<and> mmap_flags 2 = Some (PROT_READ OR PROT_WRITE, MAP_SHARED)
   \<and> (mapMode \<noteq> 0 \<and> mapMode \<noteq> 1 \<and> mapMode \<noteq> 2 \<longrightarrow>
        OSMemory_mmapImpl sys_mmap w fd offset sz mapMode =
          (w\<lparr>pending := Some (IOException EINVAL), trace := trace w @ [ALOGE_bad_mapMode mapMode]\<rparr>, - 1))
   \<and> (mmap_flags mapMode = Some (prot, flags) \<and>
        sys_mmap 0 (ucast sz) prot flags fd (ucast offset) = (r, errno) \<longrightarrow>
        OSMemory_mmapImpl sys_mmap w fd offset sz mapMode =
          (if r = MAP_FAILED
           then w\<lparr>pending := Some (IOException errno),
                   trace := trace w @ [SysMmap 0 (ucast sz) prot flags fd (ucast offset)]\<rparr>
           else w\<lparr>trace := trace w @ [SysMmap 0 (ucast sz) prot flags fd (ucast offset)]\<rparr>, r))
   \<and> sint MAP_FAILED = - 1"
  by (simp add: mmap_flags_def OSMemory_mmapImpl_def jniThrowIOException_def jniThrowException_def
      emit_def MAP_FAILED_def)

theorem mmapImpl_witness:
  "OSMemory_mmapImpl (\<lambda>a n p f d off. (MAP_FAILED, 12)) world0 5 0 4096 3 =
     (world0\<lparr>pending := Some (IOException EINVAL), trace := [ALOGE_bad_mapMode 3]\<rparr>, - 1)
   \<and> OSMemory_mmapImpl (\<lambda>a n p f d off. (MAP_FAILED, 12)) world0 5 0 4096 1 =
     (world0\<lparr>pending := Some (IOException 12), trace := [SysMmap 0 4096 PROT_READ MAP_SHARED 5 0]\<rparr>, - 1)"
proof -
  let ?k = "\<lambda>(a::addr) (n::size_t) (p::jint) (f::jint) (d::jint) (off::32 word). (MAP_FAILED, 12::jint)"
  have t: "trace world0 = []" by (simp add: world0_def)
  have "(3::jint) \<noteq> 0 \<and> (3::jint) \<noteq> 1 \<and> (3::jint) \<noteq> 2" by simp
  with mmapImpl_mode_table_and_errors [where mapMode = 3 and sys_mmap = ?k and w = world0
      and fd = 5 and offset = 0 and sz = 4096]
  have a: "OSMemory_mmapImpl ?k world0 5 0 4096 3 =
     (world0\<lparr>pending := Some (IOException EINVAL), trace := [ALOGE_bad_mapMode 3]\<rparr>, - 1)"
    by (simp add: t)
  have "mmap_flags 1 = Some (PROT_READ, MAP_SHARED) \<and>
      ?k 0 (ucast (4096 :: jlong)) PROT_READ MAP_SHARED 5 (ucast (0 :: jlong)) = (MAP_FAILED, 12)"
    by (simp add: mmap_flags_def)
  with mmapImpl_mode_table_and_errors [where mapMode = 1 and sys_mmap = ?k and w = world0
      and fd = 5 and offset = 0 and sz = 4096 and prot = PROT_READ and flags = MAP_SHARED
      and r = MAP_FAILED and errno = 12]
  have b: "OSMemory_mmapImpl ?k world0 5 0 4096 1 =
     (world0\<lparr>pending := Some (IOException 12), trace := [SysMmap 0 4096 PROT_READ MAP_SHARED 5 0]\<rparr>, - 1)"
    by (simp add: t MAP_FAILED_def)
  from a b show ?thesis by simp
qed

section \<open>The raw array copy with an unsupported element size\<close>



section \<open>Swapping an array of shorts\<close>

text \<open>
  Claim C8. Take an array of 16-bit elements with an odd element count, with the source
  and the destination either the same buffer or two buffers that share no byte (and no
  buffer wrapping around the address space). Then \<^verbatim>\<open>swapShorts\<close>, which handles pairs of
  elements by one 32-bit byte-reverse and an exchange of the halves and the last element
  on its own, leaves exactly the memory that swapping every element on its own, in order,
  leaves. The destination then holds, element by element, the swapped elements of the
  source; it holds as many elements as the source; and no byte outside the destination
  array has changed.
\<close>

theorem swapShorts_odd_count:
  assumes odd: "odd (unat count)"
    and nowrap: "2 * unat count \<le> 2 ^ 32"
    and bufs: "dst = src \<or> apart dst src (2 * unat count)"
  shows "swapShorts arch m dst src count = swapShorts_each arch m dst src (unat count)
    \<and> load_shorts (swapShorts arch m dst src count) dst (unat count) =
        map (fastSwap16 arch) (load_shorts m src (unat count))
    \<and> length (load_shorts (swapShorts arch m dst src count) dst (unat count)) =
        length (load_shorts m src (unat count))
    \<and> (\<forall>x. (\<forall>i. i < 2 * unat count \<longrightarrow> x \<noteq> dst + of_nat i) \<longrightarrow>
          swapShorts arch m dst src count x = m x)"
proof -
  have sep: "unat count div 2 = 0 \<or> (dst - src \<noteq> 1 \<and> dst - src \<noteq> 2 \<and> dst - src \<noteq> 3)"
  proof (cases "unat count div 2 = 0")
    case True
    then show ?thesis by simp
  next
    case False
    then have big: "4 \<le> 2 * unat count" by presburger
    show ?thesis using bufs
    proof
      assume "dst = src"
      then show ?thesis by simp
    next
      assume "apart dst src (2 * unat count)"
      then have "4 \<le> unat (dst - src)" using big by (simp add: apart_def)
      then have "dst - src \<noteq> 1 \<and> dst - src \<noteq> 2 \<and> dst - src \<noteq> 3" by auto
      then show ?thesis by simp
    qed
  qed
  have eq: "swapShorts arch m dst src count = cells 2 rev m dst src (unat count)"
    using sep by (rule swapShorts_cells)
  have safe: "\<And>j k. k < j \<Longrightarrow> j < 2 * unat count \<Longrightarrow> src + of_nat j \<noteq> dst + of_nat k"
    using bufs nowrap by (rule buffers_safe)
  have "load_shorts (cells 2 rev m dst src (unat count)) dst (unat count) =
      map (fastSwap16 arch) (load_shorts m src (unat count))"
    using nowrap safe by (rule cells_shorts_content)
  moreover have "cells 2 rev m dst src (unat count) x = m x"
    if "\<And>i. i < 2 * unat count \<Longrightarrow> x \<noteq> dst + of_nat i" for x
    using _ that by (rule cells_frame) simp
  ultimately show ?thesis
    by (simp add: eq swapShorts_each_cells load_shorts_def)
qed

theorem swapShorts_odd_count_witness:
  "swapShorts ARM (store_bytes (\<lambda>_. 0) 0x100 [1, 2, 3, 4, 5, 6]) 0x200 0x100 3 =
     swapShorts_each ARM (store_bytes (\<lambda>_. 0) 0x100 [1, 2, 3, 4, 5, 6]) 0x200 0x100 3
   \<and> load_shorts (swapShorts ARM (store_bytes (\<lambda>_. 0) 0x100 [1, 2, 3, 4, 5, 6]) 0x200 0x100 3) 0x200 3 =
     [0x0102, 0x0304, 0x0506]"
proof -
  let ?m = "store_bytes (\<lambda>_. 0) 0x100 [1, 2, 3, 4, 5, 6]"
  have h: "odd (unat (3 :: size_t))" "2 * unat (3 :: size_t) \<le> 2 ^ 32"
    "(0x200 :: addr) = 0x100 \<or> apart 0x200 0x100 (2 * unat (3 :: size_t))"
    by (simp_all add: apart_def)
  have src: "load_shorts ?m 0x100 3 = [0x0201, 0x0403, 0x0605]"
    by (simp add: load_shorts_def load_jshort_def load_bytes_2 word_of_bytes.simps
        upt_rec [of _ "numeral n" for n])
  have swp: "map (fastSwap16 ARM) [0x0201, 0x0403, 0x0605] = [0x0102, 0x0304, 0x0506]"
    by (simp add: fastSwap16_eq bswap_16_def)
  have u: "unat (3 :: size_t) = 3" by simp
  note T = swapShorts_odd_count [OF h, of ARM ?m]
  from T have "swapShorts ARM ?m 0x200 0x100 3 = swapShorts_each ARM ?m 0x200 0x100 (unat (3 :: size_t))"
    by (rule conjunct1)
  then have e1: "swapShorts ARM ?m 0x200 0x100 3 = swapShorts_each ARM ?m 0x200 0x100 3"
    by (simp only: u)
  from T have "load_shorts (swapShorts ARM ?m 0x200 0x100 3) 0x200 (unat (3 :: size_t)) =
      map (fastSwap16 ARM) (load_shorts ?m 0x100 (unat (3 :: size_t)))"
    by blast
  then have e2: "load_shorts (swapShorts ARM ?m 0x200 0x100 3) 0x200 3 = [0x0102, 0x0304, 0x0506]"
    by (simp only: u src swp)
  from e1 e2 show ?thesis by (rule conjI)
qed

section \<open>Swapping twice\<close>

text \<open>
  Claim C9. Byte-order swapping is an involution. Swapping a 16-, 32- or 64-bit scalar
  twice gives the scalar back, on both targets. Applying \<^verbatim>\<open>swapShorts\<close>, \<^verbatim>\<open>swapInts\<close> or
  \<^verbatim>\<open>swapLongs\<close> twice to one buffer (source and destination both that buffer) gives back
  the memory as it was, for every element count whose array fits into the address space:
  none, one or many elements.
\<close>

theorem swap_twice_is_identity:
  "fastSwap16 arch (fastSwap16 arch s) = s
   \<and> fastSwap32 arch (fastSwap32 arch i) = i
   \<and> bswap_64 (bswap_64 l) = l
   \<and> (2 * unat n \<le> 2 ^ 32 \<longrightarrow> swapShorts arch (swapShorts arch m a a n) a a n = m)
   \<and> (4 * unat n \<le> 2 ^ 32 \<longrightarrow> swapInts arch (swapInts arch m a a n) a a n = m)
   \<and> (8 * unat n \<le> 2 ^ 32 \<longrightarrow> swapLongs arch (swapLongs arch m a a n) a a n = m)"
proof (intro conjI impI)
  show "fastSwap16 arch (fastSwap16 arch s) = s" by (rule fastSwap16_involutive)
  show "fastSwap32 arch (fastSwap32 arch i) = i" by (rule fastSwap32_involutive)
  show "bswap_64 (bswap_64 l) = l" by (rule bswap_64_involutive)
next
  assume "2 * unat n \<le> 2 ^ 32"
  then have "cells 2 rev (cells 2 rev m a a (unat n)) a a (unat n) = m"
    by (intro cells_inplace_involutive) simp_all
  then show "swapShorts arch (swapShorts arch m a a n) a a n = m"
    by (simp add: swapShorts_cells)
next
  assume "4 * unat n \<le> 2 ^ 32"
  then have "cells 4 rev (cells 4 rev m a a (unat n)) a a (unat n) = m"
    by (intro cells_inplace_involutive) simp_all
  then show "swapInts arch (swapInts arch m a a n) a a n = m"
    by (simp add: swapInts_def swapInts_loop_cells)
next
  assume "8 * unat n \<le> 2 ^ 32"
  then have "cells 8 rev (cells 8 rev m a a (unat n)) a a (unat n) = m"
    by (intro cells_inplace_involutive) simp_all
  then show "swapLongs arch (swapLongs arch m a a n) a a n = m"
    by (simp add: swapLongs_def swapLongs_loop_cells)
qed

theorem swap_twice_is_identity_witness:
  "swapShorts I386 (swapShorts I386 (store_bytes (\<lambda>_. 0) 0x100 [1, 2, 3, 4, 5, 6]) 0x100 0x100 3) 0x100 0x100 3 =
     store_bytes (\<lambda>_. 0) 0x100 [1, 2, 3, 4, 5, 6]
   \<and> swapInts I386 (swapInts I386 (store_bytes (\<lambda>_. 0) 0x100 [1, 2, 3, 4]) 0x100 0x100 1) 0x100 0x100 1 =
     store_bytes (\<lambda>_. 0) 0x100 [1, 2, 3, 4]
   \<and> swapLongs I386 (swapLongs I386 (\<lambda>_. 5) 0x100 0x100 0) 0x100 0x100 0 = (\<lambda>_. 5)"
proof -
  have "2 * unat (3 :: size_t) \<le> 2 ^ 32" "4 * unat (1 :: size_t) \<le> 2 ^ 32" "8 * unat (0 :: size_t) \<le> 2 ^ 32"
    by simp_all
  then show ?thesis
    using swap_twice_is_identity [of I386 0 0 0 3 "store_bytes (\<lambda>_. 0) 0x100 [1, 2, 3, 4, 5, 6]" "0x100"]
      swap_twice_is_identity [of I386 0 0 0 1 "store_bytes (\<lambda>_. 0) 0x100 [1, 2, 3, 4]" "0x100"]
      swap_twice_is_identity [of I386 0 0 0 0 "\<lambda>_. 5" "0x100"]
    by blast
qed

section \<open>The tracked allocator: release\<close>

text \<open>
  Claim C3. Let the accounting authority admit no negative size and the C library hand out
  only blocks that share no byte with a live block. Let the program start with an empty
  heap and go on by allocating, by releasing addresses whose block is live, and by writing
  into payloads of live blocks. If at some point \<^verbatim>\<open>allocate(N)\<close> returns an address \<open>a\<close> that
  is not 0 (the authority was asked about \<open>N\<close> then, and admitted it), then after any
  further such steps that do not release \<open>a\<close>: the 8 bytes before \<open>a\<close> still hold \<open>N\<close>, the
  block of \<open>N + 8\<close> bytes at \<open>a - 8\<close> is still live, and \<^verbatim>\<open>release(a)\<close> reports exactly \<open>N\<close>
  to the authority and then frees the block at \<open>a - 8\<close>, header and payload, changing
  nothing else.
\<close>

theorem release_reports_admitted_size:
  assumes auth: "admits_no_negative track" and libc: "fresh_blocks pick"
    and start: "heap wi = Map.empty" and before: "evolves track pick {} wi w0"
    and alloc: "OSMemory_malloc track pick w0 N = (w1, a)" and ok: "a \<noteq> 0"
    and life: "evolves track pick {a} w1 w2"
  shows "trace w1 = trace w0 @ [TrackExternalAllocation (scast N)]
    \<and> load_jlong (mem w2) (a - 8) = scast N
    \<and> heap w2 (a - 8) = Some (N + 8)
    \<and> OSMemory_free w2 a =
        w2\<lparr>heap := (heap w2)(a - 8 := None),
           trace := trace w2 @ [TrackExternalFree (scast N), LibcFree (a - 8)]\<rparr>"
proof -
  have I0: "alloc_inv w0"
    using auth libc before alloc_inv_start [OF start] by (rule inv_evolves)
  have w1: "w1 = fst (OSMemory_malloc track pick w0 N)" and a: "a = snd (OSMemory_malloc track pick w0 N)"
    using alloc by simp_all
  have I1: "alloc_inv w1" unfolding w1 using auth libc I0 by (rule inv_malloc)
  have "trace w1 = trace w0 @ [TrackExternalAllocation (scast N)] \<and> heap w1 (a - 8) = Some (N + 8)"
  proof (cases rule: malloc_outcome [of track pick w0 N])
    case failed
    then show ?thesis using ok a by simp
  next
    case (succeeded b)
    then show ?thesis using a w1 by simp
  qed
  then have tr: "trace w1 = trace w0 @ [TrackExternalAllocation (scast N)]"
    and live1: "heap w1 (a - 8) = Some (N + 8)"
    by simp_all
  have live2: "heap w2 (a - 8) = Some (N + 8)"
    using auth libc life I1 _ live1 by (rule block_kept) simp
  have I2: "alloc_inv w2" using auth libc life I1 by (rule inv_evolves)
  then have hdr: "load_jlong (mem w2) (a - 8) = scast N"
    using live2 by (auto simp: alloc_inv_def header_inv_def)
  show ?thesis
    using tr hdr live2 by (simp add: free_world)
qed

theorem release_reports_admitted_size_witness:
  "load_jlong (mem (OSMemory_pokeByte (fst (OSMemory_malloc admit_nonneg pick_once world0 16)) 0x1008 7)) 0x1000 = 16
   \<and> trace (OSMemory_free (OSMemory_pokeByte (fst (OSMemory_malloc admit_nonneg pick_once world0 16)) 0x1008 7) 0x1008) =
       [TrackExternalAllocation 16, TrackExternalFree 16, LibcFree 0x1000]
   \<and> heap (OSMemory_free (OSMemory_pokeByte (fst (OSMemory_malloc admit_nonneg pick_once world0 16)) 0x1008 7) 0x1008) =
       Map.empty"
proof -
  let ?r = "OSMemory_malloc admit_nonneg pick_once world0 16"
  let ?w1 = "fst ?r"
  let ?w2 = "OSMemory_pokeByte ?w1 0x1008 7"
  have auth: "admits_no_negative admit_nonneg"
    by (simp add: admits_no_negative_def admit_nonneg_def)
  have libc: "fresh_blocks pick_once"
    by (simp add: fresh_blocks_def pick_once_def)
  have start: "heap world0 = Map.empty" by (simp add: world0_def)
  have before: "evolves admit_nonneg pick_once {} world0 world0" by (rule evolves.stay)
  have a: "snd ?r = 0x1008" and h1: "heap ?w1 = [0x1000 \<mapsto> 24]"
    and t1: "trace ?w1 = [TrackExternalAllocation 16]"
    by (simp_all add: OSMemory_malloc_def libc_calloc_def world0_def emit_def Let_def
        admit_nonneg_def pick_once_def)
  have alloc: "?r = (?w1, 0x1008)" using a by (simp add: prod_eq_iff)
  have ok: "(0x1008 :: jint) \<noteq> 0" by simp
  have life: "evolves admit_nonneg pick_once {0x1008} ?w1 ?w2"
  proof (rule evolves.poke [OF evolves.stay])
    show "heap ?w1 0x1000 = Some 24" by (simp add: h1)
    show "(8 :: addr) \<le> 0x1008 - 0x1000" by simp
    show "in_block 0x1008 0x1000 24" by (simp add: in_block_def)
  qed
  note T = release_reports_admitted_size [OF auth libc start before alloc ok life]
  have t2: "trace ?w2 = [TrackExternalAllocation 16]" and h2: "heap ?w2 = [0x1000 \<mapsto> 24]"
    by (simp_all add: OSMemory_pokeByte_def t1 h1)
  from T have "load_jlong (mem ?w2) (0x1008 - 8) = scast (16 :: jint)" by blast
  then have c1: "load_jlong (mem ?w2) 0x1000 = 16" by simp
  from T have "OSMemory_free ?w2 0x1008 =
      ?w2\<lparr>heap := (heap ?w2)(0x1008 - 8 := None),
          trace := trace ?w2 @ [TrackExternalFree (scast (16 :: jint)), LibcFree (0x1008 - 8)]\<rparr>"
    by blast
  then have c2: "trace (OSMemory_free ?w2 0x1008) =
        [TrackExternalAllocation 16, TrackExternalFree 16, LibcFree 0x1000]"
    and c3: "heap (OSMemory_free ?w2 0x1008) = Map.empty"
    by (simp_all add: t2 h2)
  from c1 c2 c3 show ?thesis by blast
qed

section \<open>Residency of a range at a high address\<close>

text \<open>
  Claim C6 says that \<^verbatim>\<open>isResident\<close> rounds the address down to the enclosing page boundary,
  lengthens the range so that it still covers the original one, and returns true exactly
  when every page of the range is resident. The code at an address whose top bit is set:
  the address is a \<^verbatim>\<open>jint\<close>, so \<^verbatim>\<open>address % page_size\<close> is negative there. With 4096-byte
  pages, for the 8192 bytes from \<^verbatim>\<open>0x80000001\<close> (which touch the pages at \<^verbatim>\<open>0x80000000\<close>,
  \<^verbatim>\<open>0x80001000\<close> and \<^verbatim>\<open>0x80002000\<close>) the offset is -4095: the query starts at \<^verbatim>\<open>0x80001000\<close>,
  above the address, is 4097 bytes long and counts two pages. The page at \<^verbatim>\<open>0x80000000\<close>
  is never asked about: when it is the only page that is not resident, the answer is still
  \<open>True\<close>.
\<close>

theorem isLoaded_high_address:
  "isLoaded_query 4096 0x80000001 8192 = (0x80001000, 4097, 2)
   \<and> OSMemory_isLoaded 4096 (mincore_of 4096 (\<lambda>p. p \<noteq> 0x80000000)) 0x80000001 8192 = Inr True"
  by (simp add: OSMemory_isLoaded_def isLoaded_query_def c_rem_int_def c_div_long_def
      signed_modulo_int_def signed_divide_int_def mincore_of_def Let_def
      upt_rec [of _ "numeral n" for n])


end
